theory Spec2Isabelle
  imports Main "HOL-Library.Word"
begin

section \<open>Data model of \<^verbatim>\<open>kern/thread/synch.c\<close>\<close>

text \<open>
  Pointers are addresses; \<^verbatim>\<open>NULL\<close> is address 0.  A C \<^verbatim>\<open>int\<close> is a 32-bit
  two's-complement word (the MIPS target of the kernel): \<open>+\<close> and \<open>-\<close> wrap around and
  \<open>sint\<close> reads the signed value.
\<close>

type_synonym addr = nat

type_synonym cint = "32 word"

definition NULL :: addr where
  "NULL = 0"

text \<open>
  Modelled from the spec: the struct declarations live in \<^verbatim>\<open>synch.h\<close>, which is not
  among the sources.  The fields are the ones \<^verbatim>\<open>synch.c\<close> reads and writes; by the
  spec's data model the semaphore count and the waiting count are integers, the lock has a
  held flag and an owner, and the condition variable owns a FIFO sequence of context
  handles.  \<^verbatim>\<open>sem->count\<close> is assigned the \<^verbatim>\<open>int initial_count\<close> of \<^verbatim>\<open>sem_create\<close>
  and is compared with 0 as a signed number, so the counts and the held flag are C
  \<^verbatim>\<open>int\<close>s.  The two \<^verbatim>\<open>count\<close> fields and the three \<^verbatim>\<open>name\<close> fields get distinct
  names.
\<close>

record semaphore =
  sem_name :: string
  sem_count :: cint

record lock =
  lock_name :: string
  lock_occupied :: cint
  lock_holder :: addr

record cv =
  cv_name :: string
  cv_count :: cint
  thread_queue :: "addr list"

text \<open>
  A sleeping thread keeps its C call stack.  A frame names the place in \<^verbatim>\<open>synch.c\<close>
  where the thread continues when \<^verbatim>\<open>thread_sleep\<close> returns, with the local variables
  that are live there (the handle and the saved interrupt level \<^verbatim>\<open>spl\<close>):
  \<^item> \<open>P_frame sem spl\<close>: inside the \<^verbatim>\<open>while\<close> loop of \<^verbatim>\<open>P\<close>;
  \<^item> \<open>Acquire_frame lock spl\<close>: inside the \<^verbatim>\<open>while\<close> loop of \<^verbatim>\<open>lock_acquire\<close>;
  \<^item> \<open>Wait_frame cv lock spl\<close>: in \<^verbatim>\<open>cv_wait\<close>, after \<^verbatim>\<open>thread_sleep(curthread)\<close>;
  \<^item> \<open>Wait_exit spl\<close>: in \<^verbatim>\<open>cv_wait\<close>, after its call of \<^verbatim>\<open>lock_acquire\<close>.
\<close>

datatype frame =
    P_frame addr bool
  | Acquire_frame addr bool
  | Wait_frame addr addr bool
  | Wait_exit bool

text \<open>
  The kernel state the primitives touch: the three kinds of objects on the heap, the
  globals \<^verbatim>\<open>curthread\<close> and \<^verbatim>\<open>in_interrupt\<close>, the interrupt mask, the threads asleep
  (thread, wait key, saved stack) and the threads made runnable again by a wakeup.
\<close>

record kstate =
  sems :: "addr \<rightharpoonup> semaphore"
  locks :: "addr \<rightharpoonup> lock"
  cvs :: "addr \<rightharpoonup> cv"
  curthread :: addr
  in_interrupt :: cint
  interrupts_masked :: bool
  sleepers :: "(addr \<times> addr \<times> frame list) list"
  runnable :: "(addr \<times> frame list) list"

text \<open>
  A failed \<^verbatim>\<open>assert\<close> panics the kernel; following a null or dangling pointer is
  undefined behaviour, which is no assertion.  Both stop the operation, and the fault
  carries the state at that moment.  An operation that calls \<^verbatim>\<open>thread_sleep\<close> is
  \<open>Blocked\<close>: the calling thread is asleep and the processor goes to another thread.
\<close>

datatype fault = Assertion_failed | Bad_pointer

datatype 'a outcome = Done 'a kstate | Blocked kstate | Fault fault kstate

section \<open>The collaborators\<close>

text \<open>
  Modelled from the spec: \<^verbatim>\<open>splhigh\<close> and \<^verbatim>\<open>splx\<close> (\<^verbatim>\<open>machine/spl.h\<close>) are not
  among the sources.  Spec, section 6: \<open>mask_interrupts() -> token\<close> and
  \<open>restore_interrupts(token)\<close>.
\<close>

definition splhigh :: "kstate \<Rightarrow> bool \<times> kstate" where
  "splhigh s = (interrupts_masked s, s\<lparr>interrupts_masked := True\<rparr>)"

definition splx :: "bool \<Rightarrow> kstate \<Rightarrow> kstate" where
  "splx spl s = s\<lparr>interrupts_masked := spl\<rparr>"

text \<open>
  Modelled from the spec: \<^verbatim>\<open>thread_sleep\<close>, \<^verbatim>\<open>thread_wakeup\<close> and
  \<^verbatim>\<open>thread_hassleepers\<close> (\<^verbatim>\<open>thread.c\<close>) are not among the sources.  Spec, section 6:
  \<open>sleep_on(key)\<close> suspends the calling context until a matching wake,
  \<open>wake_all(key)\<close> resumes all contexts currently suspended on \<open>key\<close>, and
  \<open>has_waiters(key)\<close> tells whether any context sleeps on \<open>key\<close>.
\<close>

definition thread_sleep :: "addr \<Rightarrow> frame list \<Rightarrow> kstate \<Rightarrow> kstate" where
  "thread_sleep key stack s = s\<lparr>sleepers := sleepers s @ [(curthread s, key, stack)]\<rparr>"

definition asleep_on :: "addr \<Rightarrow> addr \<times> addr \<times> frame list \<Rightarrow> bool" where
  "asleep_on key e = (fst (snd e) = key)"

definition thread_wakeup :: "addr \<Rightarrow> kstate \<Rightarrow> kstate" where
  "thread_wakeup key s =
     s\<lparr>sleepers := filter (\<lambda>e. \<not> asleep_on key e) (sleepers s),
       runnable := runnable s @
         map (\<lambda>e. (fst e, snd (snd e))) (filter (asleep_on key) (sleepers s))\<rparr>"

definition thread_hassleepers :: "addr \<Rightarrow> kstate \<Rightarrow> bool" where
  "thread_hassleepers key s = (filter (asleep_on key) (sleepers s) \<noteq> [])"

section \<open>Semaphore\<close>

text \<open>
  \<^verbatim>\<open>sem_create\<close>.  The allocator (\<^verbatim>\<open>kmalloc\<close>, \<^verbatim>\<open>kstrdup\<close>) is not among the
  sources; what it returns is given as arguments: \<open>mem\<close> is the pointer from
  \<^verbatim>\<open>kmalloc\<close> (\<open>NULL\<close> on exhaustion) and \<open>dup_ok\<close> tells whether
  \<^verbatim>\<open>kstrdup\<close> succeeded.
\<close>

definition sem_create :: "string \<Rightarrow> cint \<Rightarrow> addr \<Rightarrow> bool \<Rightarrow> kstate \<Rightarrow> addr outcome" where
  "sem_create namearg initial_count mem dup_ok s =
     (if \<not> 0 \<le> sint initial_count then Fault Assertion_failed s
      else if mem = NULL then Done NULL s
      else if \<not> dup_ok then Done NULL s
      else Done mem
        (s\<lparr>sems := (sems s)(mem \<mapsto> \<lparr>sem_name = namearg, sem_count = initial_count\<rparr>)\<rparr>))"

definition sem_destroy :: "addr \<Rightarrow> kstate \<Rightarrow> unit outcome" where
  "sem_destroy sem s =
     (if sem = NULL then Fault Assertion_failed s
      else case splhigh s of (spl, s1) \<Rightarrow>
        if thread_hassleepers sem s1 then Fault Assertion_failed s1
        else let s2 = splx spl s1
          in case sems s2 sem of
               None \<Rightarrow> Fault Bad_pointer s2
             | Some sm \<Rightarrow> Done () (s2\<lparr>sems := (sems s2)(sem := None)\<rparr>))"

text \<open>
  The loop of \<^verbatim>\<open>P\<close> from its test onward.  A thread that wakes up in
  \<^verbatim>\<open>thread_sleep\<close> continues here, so the test is made again after every wakeup.
\<close>

definition P_loop :: "addr \<Rightarrow> bool \<Rightarrow> kstate \<Rightarrow> unit outcome" where
  "P_loop sem spl s =
     (case sems s sem of
        None \<Rightarrow> Fault Bad_pointer s
      | Some sm \<Rightarrow>
          if sem_count sm = 0 then Blocked (thread_sleep sem [P_frame sem spl] s)
          else if \<not> 0 < sint (sem_count sm) then Fault Assertion_failed s
          else Done ()
            (splx spl (s\<lparr>sems := (sems s)(sem \<mapsto> sm\<lparr>sem_count := sem_count sm - 1\<rparr>)\<rparr>)))"

definition P :: "addr \<Rightarrow> kstate \<Rightarrow> unit outcome" where
  "P sem s =
     (if sem = NULL then Fault Assertion_failed s
      else if in_interrupt s \<noteq> 0 then Fault Assertion_failed s
      else case splhigh s of (spl, s1) \<Rightarrow> P_loop sem spl s1)"

definition V :: "addr \<Rightarrow> kstate \<Rightarrow> unit outcome" where
  "V sem s =
     (if sem = NULL then Fault Assertion_failed s
      else case splhigh s of (spl, s1) \<Rightarrow>
        (case sems s1 sem of
           None \<Rightarrow> Fault Bad_pointer s1
         | Some sm \<Rightarrow>
             let s2 = s1\<lparr>sems := (sems s1)(sem \<mapsto> sm\<lparr>sem_count := sem_count sm + 1\<rparr>)\<rparr>
             in if \<not> 0 < sint (sem_count sm + 1) then Fault Assertion_failed s2
                else Done () (splx spl (thread_wakeup sem s2))))"

section \<open>Lock\<close>

text \<open>\<^verbatim>\<open>lock_create\<close>, with the results of the allocator as arguments (see \<open>sem_create\<close>).\<close>

definition lock_create :: "string \<Rightarrow> addr \<Rightarrow> bool \<Rightarrow> kstate \<Rightarrow> addr outcome" where
  "lock_create name mem dup_ok s =
     (if mem = NULL then Done NULL s
      else if \<not> dup_ok then Done NULL s
      else Done mem
        (s\<lparr>locks := (locks s)(mem \<mapsto>
             \<lparr>lock_name = name, lock_occupied = 0, lock_holder = NULL\<rparr>)\<rparr>))"

definition lock_destroy :: "addr \<Rightarrow> kstate \<Rightarrow> unit outcome" where
  "lock_destroy lock s =
     (if lock = NULL then Fault Assertion_failed s
      else case locks s lock of
        None \<Rightarrow> Fault Bad_pointer s
      | Some l \<Rightarrow> Done () (s\<lparr>locks := (locks s)(lock := None)\<rparr>))"

text \<open>
  The loop of \<^verbatim>\<open>lock_acquire\<close> from its test onward.  \<open>callers\<close> are the frames below
  the one of \<^verbatim>\<open>lock_acquire\<close> on the C stack: none for a direct call, the frame of
  \<^verbatim>\<open>cv_wait\<close> when \<^verbatim>\<open>cv_wait\<close> calls it.  The \<^verbatim>\<open>assert(in_interrupt==0)\<close> of the
  source is commented out, so the model has no such test.
\<close>

definition lock_acquire_loop :: "addr \<Rightarrow> bool \<Rightarrow> frame list \<Rightarrow> kstate \<Rightarrow> unit outcome" where
  "lock_acquire_loop lock spl callers s =
     (case locks s lock of
        None \<Rightarrow> Fault Bad_pointer s
      | Some l \<Rightarrow>
          if lock_occupied l = 1 \<and> lock_holder l \<noteq> curthread s
          then Blocked (thread_sleep lock (Acquire_frame lock spl # callers) s)
          else Done ()
            (splx spl (s\<lparr>locks := (locks s)(lock \<mapsto>
               l\<lparr>lock_occupied := 1, lock_holder := curthread s\<rparr>)\<rparr>)))"

definition lock_acquire_from :: "frame list \<Rightarrow> addr \<Rightarrow> kstate \<Rightarrow> unit outcome" where
  "lock_acquire_from callers lock s =
     (if lock = NULL then Fault Assertion_failed s
      else case splhigh s of (spl, s1) \<Rightarrow> lock_acquire_loop lock spl callers s1)"

definition lock_acquire :: "addr \<Rightarrow> kstate \<Rightarrow> unit outcome" where
  "lock_acquire lock s = lock_acquire_from [] lock s"

definition lock_release :: "addr \<Rightarrow> kstate \<Rightarrow> unit outcome" where
  "lock_release lock s =
     (if lock = NULL then Fault Assertion_failed s
      else case splhigh s of (spl, s1) \<Rightarrow>
        (case locks s1 lock of
           None \<Rightarrow> Fault Bad_pointer s1
         | Some l \<Rightarrow>
             Done () (splx spl (thread_wakeup lock
               (s1\<lparr>locks := (locks s1)(lock \<mapsto>
                  l\<lparr>lock_occupied := 0, lock_holder := NULL\<rparr>)\<rparr>)))))"

text \<open>\<^verbatim>\<open>lock_do_i_hold\<close> reads \<^verbatim>\<open>lock->lock_holder\<close> at once: it has no assertion.\<close>

definition lock_do_i_hold :: "addr \<Rightarrow> kstate \<Rightarrow> bool outcome" where
  "lock_do_i_hold lock s =
     (if lock = NULL then Fault Bad_pointer s
      else case locks s lock of
        None \<Rightarrow> Fault Bad_pointer s
      | Some l \<Rightarrow> Done (lock_holder l = curthread s) s)"

section \<open>Condition variable\<close>

text \<open>
  Modelled from the spec: the queue (\<^verbatim>\<open>queue.c\<close>) is not among the sources.  Spec,
  section 9: a growable sequence of context handles with push-tail and pop-head; section
  4.3: \<open>create\<close> gives an empty waiter queue.  \<^verbatim>\<open>q_preallocate\<close> only reserves room
  and leaves the contents alone.  The spec does not say what popping an empty queue does,
  so that is the argument \<open>on_empty\<close> of \<open>q_remhead\<close>: \<open>None\<close> when it is a
  fatal fault, \<open>Some (p, q)\<close> when it returns \<open>p\<close> and leaves the queue as \<open>q\<close>.
\<close>

definition q_create :: "addr list" where
  "q_create = []"

definition q_empty :: "addr list \<Rightarrow> bool" where
  "q_empty q = (q = [])"

definition q_preallocate :: "addr list \<Rightarrow> cint \<Rightarrow> addr list" where
  "q_preallocate q n = q"

definition q_addtail :: "addr list \<Rightarrow> addr \<Rightarrow> addr list" where
  "q_addtail q p = q @ [p]"

definition q_remhead :: "(addr \<times> addr list) option \<Rightarrow> addr list \<Rightarrow> (addr \<times> addr list) option" where
  "q_remhead on_empty q = (case q of [] \<Rightarrow> on_empty | p # rest \<Rightarrow> Some (p, rest))"

definition cv_create :: "string \<Rightarrow> addr \<Rightarrow> bool \<Rightarrow> kstate \<Rightarrow> addr outcome" where
  "cv_create name mem dup_ok s =
     (if mem = NULL then Done NULL s
      else if \<not> dup_ok then Done NULL s
      else Done mem
        (s\<lparr>cvs := (cvs s)(mem \<mapsto>
             \<lparr>cv_name = name, cv_count = 0, thread_queue = q_create\<rparr>)\<rparr>))"

definition cv_destroy :: "addr \<Rightarrow> kstate \<Rightarrow> unit outcome" where
  "cv_destroy cv s =
     (if cv = NULL then Fault Assertion_failed s
      else case cvs s cv of
        None \<Rightarrow> Fault Bad_pointer s
      | Some c \<Rightarrow>
          if cv_count c \<noteq> 0 then Fault Assertion_failed s
          else if \<not> q_empty (thread_queue c) then Fault Assertion_failed s
          else Done () (s\<lparr>cvs := (cvs s)(cv := None)\<rparr>))"

text \<open>
  \<^verbatim>\<open>assert (lock_do_i_hold(lock))\<close>, as \<^verbatim>\<open>cv_wait\<close>, \<^verbatim>\<open>cv_signal\<close> and
  \<^verbatim>\<open>cv_broadcast\<close> have it: \<open>None\<close> when the assertion passes.
\<close>

definition assert_lock_do_i_hold :: "addr \<Rightarrow> kstate \<Rightarrow> fault option" where
  "assert_lock_do_i_hold lock s =
     (case lock_do_i_hold lock s of
        Done held s' \<Rightarrow> if held then None else Some Assertion_failed
      | Blocked s' \<Rightarrow> None
      | Fault f s' \<Rightarrow> Some f)"

definition cv_wait :: "addr \<Rightarrow> addr \<Rightarrow> kstate \<Rightarrow> unit outcome" where
  "cv_wait cv lock s =
     (if cv = NULL then Fault Assertion_failed s
      else if lock = NULL then Fault Assertion_failed s
      else case assert_lock_do_i_hold lock s of
        Some f \<Rightarrow> Fault f s
      | None \<Rightarrow>
          if in_interrupt s \<noteq> 0 then Fault Assertion_failed s
          else case splhigh s of (spl, s1) \<Rightarrow>
            (case lock_release lock s1 of
               Done u s2 \<Rightarrow>
                 (case cvs s2 cv of
                    None \<Rightarrow> Fault Bad_pointer s2
                  | Some c \<Rightarrow>
                      let n = cv_count c + 1;
                          q = q_addtail (q_preallocate (thread_queue c) n) (curthread s2);
                          s3 = s2\<lparr>cvs := (cvs s2)(cv \<mapsto> c\<lparr>cv_count := n, thread_queue := q\<rparr>)\<rparr>
                      in Blocked (thread_sleep (curthread s3) [Wait_frame cv lock spl] s3))
             | Blocked s2 \<Rightarrow> Blocked s2
             | Fault f s2 \<Rightarrow> Fault f s2))"

definition cv_signal :: "(addr \<times> addr list) option \<Rightarrow> addr \<Rightarrow> addr \<Rightarrow> kstate \<Rightarrow> unit outcome" where
  "cv_signal on_empty cv lock s =
     (if cv = NULL then Fault Assertion_failed s
      else if lock = NULL then Fault Assertion_failed s
      else case assert_lock_do_i_hold lock s of
        Some f \<Rightarrow> Fault f s
      | None \<Rightarrow>
          (case splhigh s of (spl, s1) \<Rightarrow>
            (case cvs s1 cv of
               None \<Rightarrow> Fault Bad_pointer s1
             | Some c \<Rightarrow>
                 let c1 = c\<lparr>cv_count := cv_count c - 1\<rparr>;
                     s2 = s1\<lparr>cvs := (cvs s1)(cv \<mapsto> c1)\<rparr>
                 in case q_remhead on_empty (thread_queue c1) of
                      None \<Rightarrow> Fault Assertion_failed s2
                    | Some (next_thread, q) \<Rightarrow>
                        Done () (splx spl (thread_wakeup next_thread
                          (s2\<lparr>cvs := (cvs s2)(cv \<mapsto> c1\<lparr>thread_queue := q\<rparr>)\<rparr>))))))"

text \<open>
  \<^verbatim>\<open>cv_broadcast\<close>.  Its loop calls \<^verbatim>\<open>cv_signal\<close> while \<^verbatim>\<open>cv->count > 0\<close>; every
  call that returns has taken one from the count, which is the measure of termination.
\<close>

function cv_broadcast_loop :: "(addr \<times> addr list) option \<Rightarrow> addr \<Rightarrow> addr \<Rightarrow> kstate \<Rightarrow> unit outcome" where
  "cv_broadcast_loop on_empty cv lock s =
     (case cvs s cv of
        None \<Rightarrow> Fault Bad_pointer s
      | Some c \<Rightarrow>
          if 0 < sint (cv_count c)
          then (case cv_signal on_empty cv lock s of
                  Done u s' \<Rightarrow> cv_broadcast_loop on_empty cv lock s'
                | Blocked s' \<Rightarrow> Blocked s'
                | Fault f s' \<Rightarrow> Fault f s')
          else Done () s)"
  by pat_completeness auto

termination
proof (relation "measure (\<lambda>(e, cv, lock, s).
         case cvs s cv of None \<Rightarrow> 0 | Some c \<Rightarrow> nat (sint (cv_count c)))")
  show "wf (measure (\<lambda>(e, cv, lock, s).
         case cvs s cv of None \<Rightarrow> 0 | Some c \<Rightarrow> nat (sint (cv_count c))))"
    by simp
next
  fix on_empty cv lock s c u s'
  assume c: "cvs s cv = Some c" and pos: "0 < sint (cv_count c)"
    and sig: "cv_signal on_empty cv lock s = Done u s'"
  from sig c have "\<exists>c'. cvs s' cv = Some c' \<and> cv_count c' = cv_count c - 1"
    by (auto simp: cv_signal_def splhigh_def splx_def thread_wakeup_def Let_def
        split: if_splits option.splits prod.splits)
  then obtain c' where c': "cvs s' cv = Some c'" "cv_count c' = cv_count c - 1"
    by blast
  have "sint (cv_count c) < 2 ^ 31" using sint_lt [of "cv_count c"] by simp
  with pos have "signed_take_bit 31 (sint (cv_count c) - 1) = sint (cv_count c) - 1"
    by (intro signed_take_bit_int_eq_self) simp_all
  then have "sint (cv_count c - 1) = sint (cv_count c) - 1"
    by (simp add: sint_word_diff)
  with c c' pos
  show "((on_empty, cv, lock, s'), (on_empty, cv, lock, s)) \<in>
        measure (\<lambda>(e, cv, lock, s).
          case cvs s cv of None \<Rightarrow> 0 | Some c \<Rightarrow> nat (sint (cv_count c)))"
    by simp
qed

declare cv_broadcast_loop.simps [simp del]

definition cv_broadcast :: "(addr \<times> addr list) option \<Rightarrow> addr \<Rightarrow> addr \<Rightarrow> kstate \<Rightarrow> unit outcome" where
  "cv_broadcast on_empty cv lock s =
     (if cv = NULL then Fault Assertion_failed s
      else if lock = NULL then Fault Assertion_failed s
      else case assert_lock_do_i_hold lock s of
        Some f \<Rightarrow> Fault f s
      | None \<Rightarrow>
          (case cv_broadcast_loop on_empty cv lock s of
             Done u s1 \<Rightarrow>
               (case cvs s1 cv of
                  None \<Rightarrow> Fault Bad_pointer s1
                | Some c \<Rightarrow>
                    if cv_count c \<noteq> 0 then Fault Assertion_failed s1
                    else if \<not> q_empty (thread_queue c) then Fault Assertion_failed s1
                    else Done () s1)
           | Blocked s1 \<Rightarrow> Blocked s1
           | Fault f s1 \<Rightarrow> Fault f s1))"

text \<open>
  The spec's words for \<open>broadcast\<close>, "repeatedly perform the equivalent of signal":
  \<^verbatim>\<open>cv_signal\<close> called \<open>n\<close> times in a row, stopping when a call does not return.
\<close>

fun cv_signal_times :: "nat \<Rightarrow> (addr \<times> addr list) option \<Rightarrow> addr \<Rightarrow> addr \<Rightarrow> kstate \<Rightarrow> unit outcome" where
  "cv_signal_times 0 e cv lock s = Done () s"
| "cv_signal_times (Suc n) e cv lock s =
     (case cv_signal e cv lock s of
        Done u s' \<Rightarrow> cv_signal_times n e cv lock s'
      | Blocked s' \<Rightarrow> Blocked s'
      | Fault f s' \<Rightarrow> Fault f s')"

section \<open>Threads that wake up\<close>

text \<open>
  \<open>resume stack s\<close>: a thread whose \<^verbatim>\<open>thread_sleep\<close> returns runs on from the top
  frame of its stack, and returns into the frames below.
\<close>

fun resume :: "frame list \<Rightarrow> kstate \<Rightarrow> unit outcome" where
  "resume [] s = Done () s"
| "resume (P_frame sem spl # callers) s =
     (case P_loop sem spl s of
        Done u s' \<Rightarrow> resume callers s'
      | Blocked s' \<Rightarrow> Blocked s'
      | Fault f s' \<Rightarrow> Fault f s')"
| "resume (Acquire_frame lock spl # callers) s =
     (case lock_acquire_loop lock spl callers s of
        Done u s' \<Rightarrow> resume callers s'
      | Blocked s' \<Rightarrow> Blocked s'
      | Fault f s' \<Rightarrow> Fault f s')"
| "resume (Wait_frame cv lock spl # callers) s =
     (case lock_acquire_from (Wait_exit spl # callers) lock s of
        Done u s' \<Rightarrow> resume callers (splx spl s')
      | Blocked s' \<Rightarrow> Blocked s'
      | Fault f s' \<Rightarrow> Fault f s')"
| "resume (Wait_exit spl # callers) s = resume callers (splx spl s)"

text \<open>
  Modelled from the spec: the scheduler (\<^verbatim>\<open>thread.c\<close>) is not among the sources.
  Spec, section 5: one execution context runs at a time and gives up the processor only in
  \<open>sleep_on\<close>; section 6: the interrupt mask is re-acquired on resume.
  \<open>switch_to t\<close> runs a thread that a wakeup made runnable, \<open>idle t\<close> tells that
  \<open>t\<close> is inside no blocking operation, and \<open>enter t\<close> is \<open>t\<close> running
  thread-level code with interrupts on.
\<close>

definition switch_to :: "addr \<Rightarrow> kstate \<Rightarrow> (frame list \<times> kstate) option" where
  "switch_to t s =
     (case map_of (runnable s) t of
        None \<Rightarrow> None
      | Some stack \<Rightarrow>
          Some (stack, s\<lparr>curthread := t, interrupts_masked := True,
                         runnable := filter (\<lambda>e. fst e \<noteq> t) (runnable s)\<rparr>))"

definition idle :: "addr \<Rightarrow> kstate \<Rightarrow> bool" where
  "idle t s = (t \<notin> fst ` set (sleepers s) \<and> t \<notin> fst ` set (runnable s))"

definition enter :: "addr \<Rightarrow> kstate \<Rightarrow> kstate" where
  "enter t s = s\<lparr>curthread := t, interrupts_masked := False\<rparr>"

definition asleep_in_P :: "addr \<Rightarrow> frame list \<Rightarrow> bool" where
  "asleep_in_P sem stack = (stack = [P_frame sem True] \<or> stack = [P_frame sem False])"

text \<open>
  A history of one semaphore: threads call \<^verbatim>\<open>P\<close> and \<^verbatim>\<open>V\<close>, and threads that
  slept in \<^verbatim>\<open>P\<close> and were woken run again.  \<open>run\<close> counts the calls of \<^verbatim>\<open>P\<close>
  and of \<^verbatim>\<open>V\<close> that have returned.  Its result is \<open>Quiescent\<close>, with the counts
  and the state, when every call has returned or gone to sleep; \<open>Panic\<close>, with the
  counts, the event that panicked, the fault and the state at that moment, when a call has
  panicked (the kernel stops, the history ends there); \<open>Impossible\<close> when an event cannot happen (a call by
  a thread that is inside a blocking operation, a resumption of a thread that is not
  runnable in \<^verbatim>\<open>P\<close> on this semaphore).
\<close>

datatype event = Call_P addr | Call_V addr | Resume addr

datatype history =
    Quiescent "nat \<times> nat" kstate
  | Panic "nat \<times> nat" event fault kstate
  | Impossible

fun run :: "addr \<Rightarrow> event list \<Rightarrow> nat \<times> nat \<Rightarrow> kstate \<Rightarrow> history" where
  "run sem [] n s = Quiescent n s"
| "run sem (Call_P t # es) (p, v) s =
     (if \<not> idle t s then Impossible
      else case P sem (enter t s) of
        Done u s' \<Rightarrow> run sem es (Suc p, v) s'
      | Blocked s' \<Rightarrow> run sem es (p, v) s'
      | Fault f s' \<Rightarrow> Panic (p, v) (Call_P t) f s')"
| "run sem (Call_V t # es) (p, v) s =
     (if \<not> idle t s then Impossible
      else case V sem (enter t s) of
        Done u s' \<Rightarrow> run sem es (p, Suc v) s'
      | Blocked s' \<Rightarrow> Impossible
      | Fault f s' \<Rightarrow> Panic (p, v) (Call_V t) f s')"
| "run sem (Resume t # es) (p, v) s =
     (case switch_to t s of
        None \<Rightarrow> Impossible
      | Some (stack, s1) \<Rightarrow>
          if \<not> asleep_in_P sem stack then Impossible
          else case resume stack s1 of
            Done u s' \<Rightarrow> run sem es (Suc p, v) s'
          | Blocked s' \<Rightarrow> run sem es (p, v) s'
          | Fault f s' \<Rightarrow> Panic (p, v) (Resume t) f s')"

section \<open>States used as examples\<close>

text \<open>The kernel before anything is created: thread 1 runs, nobody sleeps.\<close>

definition boot :: kstate where
  "boot = \<lparr>sems = Map.empty, locks = Map.empty, cvs = Map.empty, curthread = 1,
            in_interrupt = 0, interrupts_masked = False, sleepers = [], runnable = []\<rparr>"

text \<open>
  Semaphore 5 has count 0; threads 1 and 2 sleep in \<^verbatim>\<open>P\<close> on it, thread 4 sleeps on a
  lock, thread 3 runs.
\<close>

definition V_example :: kstate where
  "V_example =
     \<lparr>sems = [5 \<mapsto> \<lparr>sem_name = ''s'', sem_count = 0\<rparr>], locks = Map.empty, cvs = Map.empty,
      curthread = 3, in_interrupt = 0, interrupts_masked = False,
      sleepers = [(1, 5, [P_frame 5 False]), (4, 9, [Acquire_frame 9 False]),
                  (2, 5, [P_frame 5 False])],
      runnable = []\<rparr>"

text \<open>
  Semaphore 5 has count \<^verbatim>\<open>INT_MAX\<close>, as \<^verbatim>\<open>sem_create\<close> with that initial count
  leaves it.
\<close>

definition V_overflow_example :: kstate where
  "V_overflow_example =
     \<lparr>sems = [5 \<mapsto> \<lparr>sem_name = ''s'', sem_count = 2147483647\<rparr>], locks = Map.empty,
      cvs = Map.empty, curthread = 3, in_interrupt = 0, interrupts_masked = False,
      sleepers = [], runnable = []\<rparr>"

text \<open>Lock 7 is held by thread 1, which is running.\<close>

definition held_by_1 :: kstate where
  "held_by_1 =
     \<lparr>sems = Map.empty,
      locks = [7 \<mapsto> \<lparr>lock_name = ''l'', lock_occupied = 1, lock_holder = 1\<rparr>],
      cvs = Map.empty, curthread = 1, in_interrupt = 0, interrupts_masked = False,
      sleepers = [], runnable = []\<rparr>"

text \<open>
  Thread 1 holds lock 7; threads 2 and 3, in this order, wait on condition variable 9.
\<close>

definition two_waiters :: kstate where
  "two_waiters =
     \<lparr>sems = Map.empty,
      locks = [7 \<mapsto> \<lparr>lock_name = ''l'', lock_occupied = 1, lock_holder = 1\<rparr>],
      cvs = [9 \<mapsto> \<lparr>cv_name = ''c'', cv_count = 2, thread_queue = [2, 3]\<rparr>],
      curthread = 1, in_interrupt = 0, interrupts_masked = False,
      sleepers = [(3, 3, [Wait_frame 9 7 False]), (2, 2, [Wait_frame 9 7 False])],
      runnable = []\<rparr>"

text \<open>
  Thread 1 holds lock 7 and nobody waits on condition variable 9; thread 4 sleeps in
  \<^verbatim>\<open>P\<close> on a semaphore.
\<close>

definition no_waiters :: kstate where
  "no_waiters =
     \<lparr>sems = Map.empty,
      locks = [7 \<mapsto> \<lparr>lock_name = ''l'', lock_occupied = 1, lock_holder = 1\<rparr>],
      cvs = [9 \<mapsto> \<lparr>cv_name = ''c'', cv_count = 0, thread_queue = []\<rparr>],
      curthread = 1, in_interrupt = 0, interrupts_masked = False,
      sleepers = [(4, 5, [P_frame 5 False])], runnable = []\<rparr>"

section \<open>Signed 32-bit arithmetic\<close>

lemma sint_pred: "0 < sint (x :: 32 word) \<Longrightarrow> sint (x - 1) = sint x - 1"
proof -
  assume pos: "0 < sint x"
  have "sint x < 2 ^ 31" using sint_lt [of x] by simp
  with pos have "signed_take_bit 31 (sint x - 1) = sint x - 1"
    by (intro signed_take_bit_int_eq_self) simp_all
  then show ?thesis by (simp add: sint_word_diff)
qed

lemma sint_succ:
  "0 \<le> sint (x :: 32 word) \<Longrightarrow> sint x < 2147483647 \<Longrightarrow> sint (x + 1) = sint x + 1"
proof -
  assume a: "0 \<le> sint x" "sint x < 2147483647"
  then have "signed_take_bit 31 (sint x + 1) = sint x + 1"
    by (intro signed_take_bit_int_eq_self) simp_all
  then show ?thesis by (simp add: sint_word_add)
qed

lemma sint_succ_positive:
  assumes "0 \<le> sint (x :: 32 word)" and "0 < sint (x + 1)"
  shows "sint (x + 1) = sint x + 1"
proof -
  have le: "sint x \<le> 2147483647" using sint_lt [of x] by simp
  have "sint x \<noteq> 2147483647"
  proof
    assume "sint x = 2147483647"
    then have "sint x = sint (2147483647 :: 32 word)" by simp
    then have "x = 2147483647" by (rule signed_word_eqI)
    with assms(2) show False by simp
  qed
  with le have "sint x < 2147483647" by simp
  with assms(1) show ?thesis by (rule sint_succ)
qed

lemma count_is_length:
  assumes "sint (n :: 32 word) = int (length q)"
  shows "n = of_nat (length q)"
proof (rule signed_word_eqI)
  have "sint n < 2 ^ 31" using sint_lt [of n] by simp
  with assms have "signed_take_bit 31 (int (length q)) = int (length q)"
    by (intro signed_take_bit_int_eq_self) simp_all
  then have "sint (of_nat (length q) :: 32 word) = int (length q)"
    by (simp add: signed_of_nat)
  with assms show "sint n = sint (of_nat (length q) :: 32 word)" by simp
qed

section \<open>Semaphore: \<^verbatim>\<open>V\<close>\<close>

text \<open>
  C8, as stated, fails where the count is \<^verbatim>\<open>INT_MAX\<close>: \<^verbatim>\<open>sem->count++\<close> wraps to
  \<^verbatim>\<open>INT_MIN\<close>, the \<^verbatim>\<open>assert(sem->count>0)\<close> that follows fails, and \<^verbatim>\<open>V\<close> panics
  with interrupts masked before it wakes anybody.
\<close>

theorem V_overflow_counterexample:
  "V 5 V_overflow_example =
     Fault Assertion_failed
       (V_overflow_example\<lparr>interrupts_masked := True,
          sems := [5 \<mapsto> \<lparr>sem_name = ''s'', sem_count = 2147483648\<rparr>]\<rparr>)
   \<and> sint (2147483648 :: cint) = - 2147483648"
  by (simp add: V_def V_overflow_example_def NULL_def splhigh_def)

lemma sint_is_max:
  assumes "sint (x :: 32 word) = 2147483647"
  shows "x = 2147483647"
proof (rule signed_word_eqI)
  from assms show "sint x = sint (2147483647 :: 32 word)" by simp
qed

text \<open>
  C8, amended: for every call of \<^verbatim>\<open>V\<close> on a live semaphore whose count is at least 0.
  When the count is below \<^verbatim>\<open>INT_MAX\<close> the call returns; with interrupts masked it has
  incremented the count by exactly one and then woken all threads sleeping on the
  semaphore (none is left asleep on it), and it has restored the interrupt mask of its
  caller.  When the count is \<^verbatim>\<open>INT_MAX\<close> the increment wraps to \<^verbatim>\<open>INT_MIN\<close> and the
  assertion that follows is a fatal fault, raised with interrupts masked and before any
  thread is woken: the sleepers and the runnable threads are as they were.
\<close>

theorem V_increments_and_wakes_all:
  assumes "sem \<noteq> NULL" and "sems s sem = Some sm" and "0 \<le> sint (sem_count sm)"
  shows "(sint (sem_count sm) < 2147483647 \<longrightarrow>
          (\<exists>s'. V sem s = Done () s'
           \<and> s' = splx (interrupts_masked s) (thread_wakeup sem
                 (s\<lparr>interrupts_masked := True,
                    sems := (sems s)(sem \<mapsto> sm\<lparr>sem_count := sem_count sm + 1\<rparr>)\<rparr>))
           \<and> sems s' sem = Some (sm\<lparr>sem_count := sem_count sm + 1\<rparr>)
           \<and> sint (sem_count sm + 1) = sint (sem_count sm) + 1
           \<and> \<not> thread_hassleepers sem s'
           \<and> sleepers s' = filter (\<lambda>e. \<not> asleep_on sem e) (sleepers s)
           \<and> runnable s' = runnable s @
                 map (\<lambda>e. (fst e, snd (snd e))) (filter (asleep_on sem) (sleepers s))
           \<and> interrupts_masked s' = interrupts_masked s))
       \<and> (sint (sem_count sm) = 2147483647 \<longrightarrow>
          (\<exists>s'. V sem s = Fault Assertion_failed s'
           \<and> s' = s\<lparr>interrupts_masked := True,
                     sems := (sems s)(sem \<mapsto> sm\<lparr>sem_count := sem_count sm + 1\<rparr>)\<rparr>
           \<and> sint (sem_count sm + 1) = - 2147483648
           \<and> interrupts_masked s'
           \<and> sleepers s' = sleepers s
           \<and> runnable s' = runnable s))"
proof (intro conjI impI)
  assume below: "sint (sem_count sm) < 2147483647"
  let ?s' = "splx (interrupts_masked s) (thread_wakeup sem
               (s\<lparr>interrupts_masked := True,
                  sems := (sems s)(sem \<mapsto> sm\<lparr>sem_count := sem_count sm + 1\<rparr>)\<rparr>))"
  have inc: "sint (sem_count sm + 1) = sint (sem_count sm) + 1"
    using assms(3) below by (rule sint_succ)
  with assms(3) have "0 < sint (sem_count sm + 1)" by simp
  with assms(1,2) have "V sem s = Done () ?s'"
    by (simp add: V_def splhigh_def)
  moreover have "sems ?s' sem = Some (sm\<lparr>sem_count := sem_count sm + 1\<rparr>)"
    and "sleepers ?s' = filter (\<lambda>e. \<not> asleep_on sem e) (sleepers s)"
    and "runnable ?s' = runnable s @
           map (\<lambda>e. (fst e, snd (snd e))) (filter (asleep_on sem) (sleepers s))"
    and "interrupts_masked ?s' = interrupts_masked s"
    by (simp_all add: splx_def thread_wakeup_def)
  moreover have "\<not> thread_hassleepers sem ?s'"
    by (simp add: thread_hassleepers_def splx_def thread_wakeup_def)
  ultimately show "\<exists>s'. V sem s = Done () s'
           \<and> s' = ?s'
           \<and> sems s' sem = Some (sm\<lparr>sem_count := sem_count sm + 1\<rparr>)
           \<and> sint (sem_count sm + 1) = sint (sem_count sm) + 1
           \<and> \<not> thread_hassleepers sem s'
           \<and> sleepers s' = filter (\<lambda>e. \<not> asleep_on sem e) (sleepers s)
           \<and> runnable s' = runnable s @
                 map (\<lambda>e. (fst e, snd (snd e))) (filter (asleep_on sem) (sleepers s))
           \<and> interrupts_masked s' = interrupts_masked s"
    using inc by simp
next
  assume "sint (sem_count sm) = 2147483647"
  then have max: "sem_count sm = 2147483647" by (rule sint_is_max)
  then have wrap: "sint (sem_count sm + 1) = - 2147483648" by simp
  let ?s' = "s\<lparr>interrupts_masked := True,
                sems := (sems s)(sem \<mapsto> sm\<lparr>sem_count := sem_count sm + 1\<rparr>)\<rparr>"
  from wrap have "\<not> 0 < sint (sem_count sm + 1)" by simp
  with assms(1,2) have "V sem s = Fault Assertion_failed ?s'"
    by (simp add: V_def splhigh_def)
  with wrap show "\<exists>s'. V sem s = Fault Assertion_failed s'
           \<and> s' = ?s'
           \<and> sint (sem_count sm + 1) = - 2147483648
           \<and> interrupts_masked s'
           \<and> sleepers s' = sleepers s
           \<and> runnable s' = runnable s"
    by simp
qed

theorem V_increments_and_wakes_all_witness:
  "V 5 V_example = Done ()
     (V_example\<lparr>sems := [5 \<mapsto> \<lparr>sem_name = ''s'', sem_count = 1\<rparr>],
        sleepers := [(4, 9, [Acquire_frame 9 False])],
        runnable := [(1, [P_frame 5 False]), (2, [P_frame 5 False])]\<rparr>)
   \<and> V 5 (V_example\<lparr>sems := [5 \<mapsto> \<lparr>sem_name = ''s'', sem_count = 2147483647\<rparr>]\<rparr>) =
       Fault Assertion_failed
         (V_example\<lparr>interrupts_masked := True,
            sems := [5 \<mapsto> \<lparr>sem_name = ''s'', sem_count = 2147483648\<rparr>]\<rparr>)"
proof -
  let ?full = "V_example\<lparr>sems := [5 \<mapsto> \<lparr>sem_name = ''s'', sem_count = 2147483647\<rparr>]\<rparr>"
  have null: "(5 :: addr) \<noteq> NULL" by (simp add: NULL_def)
  have "sems V_example 5 = Some \<lparr>sem_name = ''s'', sem_count = 0\<rparr>"
    by (simp add: V_example_def)
  from V_increments_and_wakes_all [OF null this]
  have below: "V 5 V_example = Done ()
     (V_example\<lparr>sems := [5 \<mapsto> \<lparr>sem_name = ''s'', sem_count = 1\<rparr>],
        sleepers := [(4, 9, [Acquire_frame 9 False])],
        runnable := [(1, [P_frame 5 False]), (2, [P_frame 5 False])]\<rparr>)"
    by (simp add: V_example_def splx_def thread_wakeup_def asleep_on_def)
  have "sems ?full 5 = Some \<lparr>sem_name = ''s'', sem_count = 2147483647\<rparr>"
    by (simp add: V_example_def)
  from V_increments_and_wakes_all [OF null this]
  have "V 5 ?full = Fault Assertion_failed
         (V_example\<lparr>interrupts_masked := True,
            sems := [5 \<mapsto> \<lparr>sem_name = ''s'', sem_count = 2147483648\<rparr>]\<rparr>)"
    by (simp add: V_example_def)
  with below show ?thesis by simp
qed

section \<open>Semaphore: conservation of the count\<close>

lemma P_loop_Done:
  assumes "P_loop sem spl s = Done u s'" and "sems s sem = Some sm"
  shows "0 < sint (sem_count sm) \<and>
         sems s' sem = Some (sm\<lparr>sem_count := sem_count sm - 1\<rparr>)"
  using assms by (auto simp: P_loop_def splx_def split: if_splits)

lemma P_loop_Blocked:
  assumes "P_loop sem spl s = Blocked s'"
  shows "sems s' = sems s"
  using assms by (auto simp: P_loop_def thread_sleep_def split: if_splits option.splits)

text \<open>With a count that is not negative the loop of \<^verbatim>\<open>P\<close> does not panic.\<close>

lemma P_loop_no_Fault:
  assumes "sems s sem = Some sm" and "0 \<le> sint (sem_count sm)"
  shows "P_loop sem spl s \<noteq> Fault f s'"
proof (cases "sem_count sm = 0")
  case True
  with assms(1) show ?thesis by (simp add: P_loop_def)
next
  case False
  then have "sint (sem_count sm) \<noteq> 0" by (simp add: signed_eq_0_iff)
  with assms(2) have "0 < sint (sem_count sm)" by simp
  with assms(1) False show ?thesis by (simp add: P_loop_def)
qed

lemma P_Done:
  assumes "P sem s = Done u s'" and "sems s sem = Some sm"
  shows "0 < sint (sem_count sm) \<and>
         sems s' sem = Some (sm\<lparr>sem_count := sem_count sm - 1\<rparr>)"
proof -
  from assms(1) have "P_loop sem (interrupts_masked s) (s\<lparr>interrupts_masked := True\<rparr>) = Done u s'"
    by (simp add: P_def splhigh_def split: if_splits)
  then show ?thesis by (rule P_loop_Done) (simp add: assms(2))
qed

lemma P_Blocked:
  assumes "P sem s = Blocked s'"
  shows "sems s' = sems s"
proof -
  from assms have "P_loop sem (interrupts_masked s) (s\<lparr>interrupts_masked := True\<rparr>) = Blocked s'"
    by (simp add: P_def splhigh_def split: if_splits)
  then have "sems s' = sems (s\<lparr>interrupts_masked := True\<rparr>)" by (rule P_loop_Blocked)
  then show ?thesis by simp
qed

text \<open>
  On a live semaphore with a count that is not negative, \<^verbatim>\<open>P\<close> panics only at its
  \<^verbatim>\<open>assert(in_interrupt==0)\<close>, with the state untouched.
\<close>

lemma P_Fault:
  assumes "P sem s = Fault f s'" and "sem \<noteq> NULL"
    and "sems s sem = Some sm" and "0 \<le> sint (sem_count sm)"
  shows "f = Assertion_failed \<and> s' = s \<and> in_interrupt s \<noteq> 0"
proof (cases "in_interrupt s = 0")
  case False
  with assms(1,2) show ?thesis by (simp add: P_def)
next
  case True
  with assms(1,2)
  have "P_loop sem (interrupts_masked s) (s\<lparr>interrupts_masked := True\<rparr>) = Fault f s'"
    by (simp add: P_def splhigh_def)
  moreover have "sems (s\<lparr>interrupts_masked := True\<rparr>) sem = Some sm"
    using assms(3) by simp
  ultimately show ?thesis using P_loop_no_Fault [OF _ assms(4)] by blast
qed

lemma V_Done:
  assumes "V sem s = Done u s'" and "sems s sem = Some sm"
  shows "0 < sint (sem_count sm + 1) \<and>
         sems s' sem = Some (sm\<lparr>sem_count := sem_count sm + 1\<rparr>)"
  using assms
  by (auto simp: V_def splhigh_def splx_def thread_wakeup_def Let_def split: if_splits)

lemma V_not_Blocked: "V sem s \<noteq> Blocked s'"
  by (simp add: V_def splhigh_def Let_def split: option.splits)

text \<open>
  On a live semaphore with a count that is not negative, \<^verbatim>\<open>V\<close> panics only when the
  count is \<^verbatim>\<open>INT_MAX\<close>: the count it leaves behind is \<^verbatim>\<open>INT_MIN\<close>.
\<close>

lemma V_Fault:
  assumes "V sem s = Fault f s'" and "sem \<noteq> NULL"
    and "sems s sem = Some sm" and "0 \<le> sint (sem_count sm)"
  shows "f = Assertion_failed \<and> sint (sem_count sm) = 2147483647 \<and>
         sems s' sem = Some (sm\<lparr>sem_count := sem_count sm + 1\<rparr>) \<and>
         sint (sem_count sm + 1) = - 2147483648"
proof -
  from assms(1,2,3)
  have f: "f = Assertion_failed" and neg: "\<not> 0 < sint (sem_count sm + 1)"
    and s': "sems s' sem = Some (sm\<lparr>sem_count := sem_count sm + 1\<rparr>)"
    by (auto simp: V_def splhigh_def Let_def split: if_splits)
  have le: "sint (sem_count sm) \<le> 2147483647" using sint_lt [of "sem_count sm"] by simp
  have "\<not> sint (sem_count sm) < 2147483647"
  proof
    assume "sint (sem_count sm) < 2147483647"
    with assms(4) have "sint (sem_count sm + 1) = sint (sem_count sm) + 1" by (rule sint_succ)
    with assms(4) neg show False by simp
  qed
  with le have max: "sint (sem_count sm) = 2147483647" by simp
  then have "sem_count sm = 2147483647" by (rule sint_is_max)
  then have "sint (sem_count sm + 1) = - 2147483648" by simp
  with f max s' show ?thesis by simp
qed

lemma run_step_P:
  assumes "0 < sint (c :: 32 word)" and "sint c + int p - int v = b"
  shows "0 \<le> sint (c - 1) \<and> sint (c - 1) + int (Suc p) - int v = b"
  using sint_pred [OF assms(1)] assms by simp

lemma run_step_V:
  assumes "0 \<le> sint (c :: 32 word)" and "0 < sint (c + 1)" and "sint c + int p - int v = b"
  shows "0 \<le> sint (c + 1) \<and> sint (c + 1) + int p - int (Suc v) = b"
  using sint_succ_positive [OF assms(1,2)] assms by simp

lemma switch_to_sems:
  "switch_to t s = Some (stack, s1) \<Longrightarrow> sems s1 = sems s"
  by (auto simp: switch_to_def split: option.splits)

text \<open>
  The invariant of a history.  \<open>b\<close> is the balance: the count plus the calls of
  \<^verbatim>\<open>P\<close> that have returned minus the calls of \<^verbatim>\<open>V\<close> that have returned.  At a
  quiescent point the count is not negative and the balance is what it was.
\<close>

lemma run_conserves:
  assumes "run sem es (p, v) s = Quiescent (p', v') s'"
    and "sems s sem = Some sm" and "0 \<le> sint (sem_count sm)"
    and "sint (sem_count sm) + int p - int v = b"
  shows "\<exists>sm'. sems s' sem = Some sm' \<and> 0 \<le> sint (sem_count sm') \<and>
           sint (sem_count sm') + int p' - int v' = b"
  using assms
proof (induction es arbitrary: p v s sm)
  case Nil
  then show ?case by simp
next
  case (Cons e es)
  show ?case
  proof (cases e)
    case (Call_P t)
    with Cons.prems(1) have idle: "idle t s" by (simp split: if_splits)
    have sm: "sems (enter t s) sem = Some sm" using Cons.prems(2) by (simp add: enter_def)
    show ?thesis
    proof (cases "P sem (enter t s)")
      case (Done u s1)
      from P_Done [OF Done sm]
      have pos: "0 < sint (sem_count sm)"
        and s1: "sems s1 sem = Some (sm\<lparr>sem_count := sem_count sm - 1\<rparr>)" by simp_all
      from Cons.prems(1) Call_P idle Done
      have r: "run sem es (Suc p, v) s1 = Quiescent (p', v') s'" by simp
      from run_step_P [OF pos Cons.prems(4)]
      have "0 \<le> sint (sem_count (sm\<lparr>sem_count := sem_count sm - 1\<rparr>))"
        and "sint (sem_count (sm\<lparr>sem_count := sem_count sm - 1\<rparr>)) + int (Suc p) - int v = b"
        by simp_all
      with r s1 show ?thesis by (rule Cons.IH)
    next
      case (Blocked s1)
      from P_Blocked [OF Blocked] sm have s1: "sems s1 sem = Some sm" by (simp add: enter_def)
      from Cons.prems(1) Call_P idle Blocked
      have "run sem es (p, v) s1 = Quiescent (p', v') s'" by simp
      from this s1 Cons.prems(3,4) show ?thesis by (rule Cons.IH)
    next
      case (Fault f s1)
      with Cons.prems(1) Call_P idle show ?thesis by simp
    qed
  next
    case (Call_V t)
    with Cons.prems(1) have idle: "idle t s" by (simp split: if_splits)
    have sm: "sems (enter t s) sem = Some sm" using Cons.prems(2) by (simp add: enter_def)
    show ?thesis
    proof (cases "V sem (enter t s)")
      case (Done u s1)
      from V_Done [OF Done sm]
      have pos: "0 < sint (sem_count sm + 1)"
        and s1: "sems s1 sem = Some (sm\<lparr>sem_count := sem_count sm + 1\<rparr>)" by simp_all
      from Cons.prems(1) Call_V idle Done
      have r: "run sem es (p, Suc v) s1 = Quiescent (p', v') s'" by simp
      from run_step_V [OF Cons.prems(3) pos Cons.prems(4)]
      have "0 \<le> sint (sem_count (sm\<lparr>sem_count := sem_count sm + 1\<rparr>))"
        and "sint (sem_count (sm\<lparr>sem_count := sem_count sm + 1\<rparr>)) + int p - int (Suc v) = b"
        by simp_all
      with r s1 show ?thesis by (rule Cons.IH)
    next
      case (Blocked s1)
      with Cons.prems(1) Call_V idle show ?thesis by simp
    next
      case (Fault f s1)
      with Cons.prems(1) Call_V idle show ?thesis by simp
    qed
  next
    case (Resume t)
    with Cons.prems(1) obtain stack s1 where sw: "switch_to t s = Some (stack, s1)"
      by (auto split: option.splits)
    with Cons.prems(1) Resume have inP: "asleep_in_P sem stack"
      by (simp split: if_splits)
    then obtain spl where stack: "stack = [P_frame sem spl]"
      by (auto simp: asleep_in_P_def)
    have sm: "sems s1 sem = Some sm" using switch_to_sems [OF sw] Cons.prems(2) by simp
    show ?thesis
    proof (cases "P_loop sem spl s1")
      case (Done u s2)
      from P_loop_Done [OF Done sm]
      have pos: "0 < sint (sem_count sm)"
        and s2: "sems s2 sem = Some (sm\<lparr>sem_count := sem_count sm - 1\<rparr>)" by simp_all
      from Cons.prems(1) Resume sw inP stack Done
      have r: "run sem es (Suc p, v) s2 = Quiescent (p', v') s'" by simp
      from run_step_P [OF pos Cons.prems(4)]
      have "0 \<le> sint (sem_count (sm\<lparr>sem_count := sem_count sm - 1\<rparr>))"
        and "sint (sem_count (sm\<lparr>sem_count := sem_count sm - 1\<rparr>)) + int (Suc p) - int v = b"
        by simp_all
      with r s2 show ?thesis by (rule Cons.IH)
    next
      case (Blocked s2)
      from P_loop_Blocked [OF Blocked] sm have s2: "sems s2 sem = Some sm" by simp
      from Cons.prems(1) Resume sw inP stack Blocked
      have "run sem es (p, v) s2 = Quiescent (p', v') s'" by simp
      from this s2 Cons.prems(3,4) show ?thesis by (rule Cons.IH)
    next
      case (Fault f s2)
      with Cons.prems(1) Resume sw inP stack show ?thesis by simp
    qed
  qed
qed

text \<open>
  A history that panics: up to the call that panics the invariant has held, and that call
  is either \<^verbatim>\<open>P\<close> in an interrupt handler, which leaves the count alone, or \<^verbatim>\<open>V\<close> at
  count \<^verbatim>\<open>INT_MAX\<close>, which leaves the count at \<^verbatim>\<open>INT_MIN\<close>.
\<close>

lemma run_panic:
  assumes "run sem es (p, v) s = Panic (p', v') e' f s'" and "sem \<noteq> NULL"
    and "sems s sem = Some sm" and "0 \<le> sint (sem_count sm)"
    and "sint (sem_count sm) + int p - int v = b"
  shows "f = Assertion_failed \<and>
         (\<exists>sm'. sems s' sem = Some sm' \<and>
            ((\<exists>t. e' = Call_P t) \<and> in_interrupt s' \<noteq> 0 \<and> 0 \<le> sint (sem_count sm') \<and>
               sint (sem_count sm') + int p' - int v' = b
             \<or> (\<exists>t. e' = Call_V t) \<and> sint (sem_count sm') = - 2147483648 \<and>
               2147483647 + int p' - int v' = b))"
  using assms
proof (induction es arbitrary: p v s sm)
  case Nil
  then show ?case by simp
next
  case (Cons e es)
  note null = Cons.prems(2)
  show ?case
  proof (cases e)
    case (Call_P t)
    with Cons.prems(1) have idle: "idle t s" by (simp split: if_splits)
    have sm: "sems (enter t s) sem = Some sm" using Cons.prems(3) by (simp add: enter_def)
    show ?thesis
    proof (cases "P sem (enter t s)")
      case (Done u s1)
      from P_Done [OF Done sm]
      have pos: "0 < sint (sem_count sm)"
        and s1: "sems s1 sem = Some (sm\<lparr>sem_count := sem_count sm - 1\<rparr>)" by simp_all
      from Cons.prems(1) Call_P idle Done
      have r: "run sem es (Suc p, v) s1 = Panic (p', v') e' f s'" by simp
      from run_step_P [OF pos Cons.prems(5)]
      have "0 \<le> sint (sem_count (sm\<lparr>sem_count := sem_count sm - 1\<rparr>))"
        and "sint (sem_count (sm\<lparr>sem_count := sem_count sm - 1\<rparr>)) + int (Suc p) - int v = b"
        by simp_all
      with r null s1 show ?thesis by (rule Cons.IH)
    next
      case (Blocked s1)
      from P_Blocked [OF Blocked] sm have s1: "sems s1 sem = Some sm" by (simp add: enter_def)
      from Cons.prems(1) Call_P idle Blocked
      have "run sem es (p, v) s1 = Panic (p', v') e' f s'" by simp
      from this null s1 Cons.prems(4,5) show ?thesis by (rule Cons.IH)
    next
      case (Fault g s1)
      from Cons.prems(1) Call_P idle Fault
      have same: "p' = p" "v' = v" "f = g" "s' = s1" "e' = Call_P t" by simp_all
      from P_Fault [OF Fault null sm Cons.prems(4)]
      have "g = Assertion_failed" and "s1 = enter t s" and "in_interrupt (enter t s) \<noteq> 0"
        by simp_all
      with same sm Cons.prems(4,5) show ?thesis by simp
    qed
  next
    case (Call_V t)
    with Cons.prems(1) have idle: "idle t s" by (simp split: if_splits)
    have sm: "sems (enter t s) sem = Some sm" using Cons.prems(3) by (simp add: enter_def)
    show ?thesis
    proof (cases "V sem (enter t s)")
      case (Done u s1)
      from V_Done [OF Done sm]
      have pos: "0 < sint (sem_count sm + 1)"
        and s1: "sems s1 sem = Some (sm\<lparr>sem_count := sem_count sm + 1\<rparr>)" by simp_all
      from Cons.prems(1) Call_V idle Done
      have r: "run sem es (p, Suc v) s1 = Panic (p', v') e' f s'" by simp
      from run_step_V [OF Cons.prems(4) pos Cons.prems(5)]
      have "0 \<le> sint (sem_count (sm\<lparr>sem_count := sem_count sm + 1\<rparr>))"
        and "sint (sem_count (sm\<lparr>sem_count := sem_count sm + 1\<rparr>)) + int p - int (Suc v) = b"
        by simp_all
      with r null s1 show ?thesis by (rule Cons.IH)
    next
      case (Blocked s1)
      with Cons.prems(1) Call_V idle show ?thesis by simp
    next
      case (Fault g s1)
      from Cons.prems(1) Call_V idle Fault
      have same: "p' = p" "v' = v" "f = g" "s' = s1" "e' = Call_V t" by simp_all
      from V_Fault [OF Fault null sm Cons.prems(4)]
      have "g = Assertion_failed" and "sint (sem_count sm) = 2147483647"
        and "sems s1 sem = Some (sm\<lparr>sem_count := sem_count sm + 1\<rparr>)"
        and "sint (sem_count sm + 1) = - 2147483648"
        by simp_all
      with same Cons.prems(5) show ?thesis by simp
    qed
  next
    case (Resume t)
    with Cons.prems(1) obtain stack s1 where sw: "switch_to t s = Some (stack, s1)"
      by (auto split: option.splits)
    with Cons.prems(1) Resume have inP: "asleep_in_P sem stack"
      by (simp split: if_splits)
    then obtain spl where stack: "stack = [P_frame sem spl]"
      by (auto simp: asleep_in_P_def)
    have sm: "sems s1 sem = Some sm" using switch_to_sems [OF sw] Cons.prems(3) by simp
    show ?thesis
    proof (cases "P_loop sem spl s1")
      case (Done u s2)
      from P_loop_Done [OF Done sm]
      have pos: "0 < sint (sem_count sm)"
        and s2: "sems s2 sem = Some (sm\<lparr>sem_count := sem_count sm - 1\<rparr>)" by simp_all
      from Cons.prems(1) Resume sw inP stack Done
      have r: "run sem es (Suc p, v) s2 = Panic (p', v') e' f s'" by simp
      from run_step_P [OF pos Cons.prems(5)]
      have "0 \<le> sint (sem_count (sm\<lparr>sem_count := sem_count sm - 1\<rparr>))"
        and "sint (sem_count (sm\<lparr>sem_count := sem_count sm - 1\<rparr>)) + int (Suc p) - int v = b"
        by simp_all
      with r null s2 show ?thesis by (rule Cons.IH)
    next
      case (Blocked s2)
      from P_loop_Blocked [OF Blocked] sm have s2: "sems s2 sem = Some sm" by simp
      from Cons.prems(1) Resume sw inP stack Blocked
      have "run sem es (p, v) s2 = Panic (p', v') e' f s'" by simp
      from this null s2 Cons.prems(4,5) show ?thesis by (rule Cons.IH)
    next
      case (Fault g s2)
      with P_loop_no_Fault [OF sm Cons.prems(4)] show ?thesis by simp
    qed
  qed
qed

text \<open>A history that reaches a quiescent point has been quiescent after each of its events.\<close>

lemma run_append:
  "run sem (es @ es') n s =
     (case run sem es n s of
        Quiescent n' s' \<Rightarrow> run sem es' n' s'
      | Panic n' e f s' \<Rightarrow> Panic n' e f s'
      | Impossible \<Rightarrow> Impossible)"
proof (induction es arbitrary: n s)
  case Nil
  then show ?case by simp
next
  case (Cons e es)
  obtain p v where n: "n = (p, v)" by (cases n)
  show ?case
    by (cases e) (simp_all add: n Cons.IH split: outcome.splits option.splits prod.splits)
qed

lemma sem_create_Done:
  assumes "sem_create namearg n mem dup_ok s = Done sem s'" and "sem \<noteq> NULL"
  shows "0 \<le> sint n \<and> sems s' sem = Some \<lparr>sem_name = namearg, sem_count = n\<rparr>"
  using assms by (auto simp: sem_create_def split: if_splits)

text \<open>
  C6, as stated, fails on the history \<^verbatim>\<open>sem_create\<close> with initial count \<^verbatim>\<open>INT_MAX\<close>,
  then \<^verbatim>\<open>V\<close>: the increment takes the count to \<^verbatim>\<open>INT_MIN\<close>, which is negative, and
  \<^verbatim>\<open>V\<close> panics at its assertion with no call returned.
\<close>

theorem semaphore_count_negative_counterexample:
  "sem_create ''sem'' 2147483647 5 True boot =
     Done 5 (boot\<lparr>sems := [5 \<mapsto> \<lparr>sem_name = ''sem'', sem_count = 2147483647\<rparr>]\<rparr>)
   \<and> run 5 [Call_V 2] (0, 0)
         (boot\<lparr>sems := [5 \<mapsto> \<lparr>sem_name = ''sem'', sem_count = 2147483647\<rparr>]\<rparr>) =
       Panic (0, 0) (Call_V 2) Assertion_failed
         (boot\<lparr>curthread := 2, interrupts_masked := True,
            sems := [5 \<mapsto> \<lparr>sem_name = ''sem'', sem_count = 2147483648\<rparr>]\<rparr>)
   \<and> sint (2147483648 :: cint) < 0"
  by (simp add: sem_create_def boot_def NULL_def V_def enter_def idle_def splhigh_def)

text \<open>
  C6, amended: start from \<^verbatim>\<open>sem_create\<close> with initial count \<open>n\<close> (that it returns a
  semaphore means \<open>n \<ge> 0\<close>) and take any history of \<^verbatim>\<open>P\<close> calls, \<^verbatim>\<open>V\<close> calls and
  resumptions of threads woken in \<^verbatim>\<open>P\<close>.
  \<^item> At every quiescent point of it the count is not negative and equals \<open>n\<close> plus the
    number of \<^verbatim>\<open>V\<close> calls that have returned minus the number of \<^verbatim>\<open>P\<close> calls that
    have returned; a history that reaches a quiescent point was quiescent after each of
    its events.
  \<^item> When a call panics it is at an assertion, and it is one of two calls: \<^verbatim>\<open>P\<close> with
    \<^verbatim>\<open>in_interrupt != 0\<close>, where the count is still not negative and still equals \<open>n\<close>
    plus returned \<^verbatim>\<open>V\<close> minus returned \<^verbatim>\<open>P\<close>; or \<^verbatim>\<open>V\<close> at count \<^verbatim>\<open>INT_MAX\<close>
    (\<open>n\<close> plus returned \<^verbatim>\<open>V\<close> minus returned \<^verbatim>\<open>P\<close> is \<^verbatim>\<open>INT_MAX\<close>), where the
    count is left at \<^verbatim>\<open>INT_MIN\<close>.  Only there is the count negative.
\<close>

theorem semaphore_conservation:
  assumes "sem_create namearg n mem dup_ok s0 = Done sem s1" and "sem \<noteq> NULL"
  shows "(\<forall>p v s. run sem es (0, 0) s1 = Quiescent (p, v) s \<longrightarrow>
            (\<exists>sm. sems s sem = Some sm \<and> 0 \<le> sint (sem_count sm) \<and>
               sint (sem_count sm) = sint n + int v - int p))
       \<and> (\<forall>r s es'. run sem (es @ es') (0, 0) s1 = Quiescent r s \<longrightarrow>
            (\<exists>r' s'. run sem es (0, 0) s1 = Quiescent r' s'))
       \<and> (\<forall>p v e f s. run sem es (0, 0) s1 = Panic (p, v) e f s \<longrightarrow>
            f = Assertion_failed \<and>
            (\<exists>sm. sems s sem = Some sm \<and>
               ((\<exists>t. e = Call_P t) \<and> in_interrupt s \<noteq> 0 \<and> 0 \<le> sint (sem_count sm) \<and>
                  sint (sem_count sm) = sint n + int v - int p
                \<or> (\<exists>t. e = Call_V t) \<and> sint (sem_count sm) = - 2147483648 \<and>
                  sint n + int v - int p = 2147483647)))"
proof (intro conjI allI impI)
  from sem_create_Done [OF assms]
  have n: "0 \<le> sint n" and s1: "sems s1 sem = Some \<lparr>sem_name = namearg, sem_count = n\<rparr>"
    by simp_all
  have b: "sint (sem_count \<lparr>sem_name = namearg, sem_count = n\<rparr>) + int 0 - int 0 = sint n"
    by simp
  have n': "0 \<le> sint (sem_count \<lparr>sem_name = namearg, sem_count = n\<rparr>)" using n by simp
  {
    fix p v s
    assume "run sem es (0, 0) s1 = Quiescent (p, v) s"
    from run_conserves [OF this s1 n' b] obtain sm
      where "sems s sem = Some sm" "0 \<le> sint (sem_count sm)"
        "sint (sem_count sm) + int p - int v = sint n"
      by blast
    then show "\<exists>sm. sems s sem = Some sm \<and> 0 \<le> sint (sem_count sm) \<and>
               sint (sem_count sm) = sint n + int v - int p"
      by auto
  }
  {
    fix r s es'
    assume "run sem (es @ es') (0, 0) s1 = Quiescent r s"
    then show "\<exists>r' s'. run sem es (0, 0) s1 = Quiescent r' s'"
      by (auto simp: run_append split: history.splits)
  }
  {
    fix p v e f s
    assume "run sem es (0, 0) s1 = Panic (p, v) e f s"
    from run_panic [OF this assms(2) s1 n' b]
    have f: "f = Assertion_failed"
      and "\<exists>sm. sems s sem = Some sm \<and>
            ((\<exists>t. e = Call_P t) \<and> in_interrupt s \<noteq> 0 \<and> 0 \<le> sint (sem_count sm) \<and>
               sint (sem_count sm) + int p - int v = sint n
             \<or> (\<exists>t. e = Call_V t) \<and> sint (sem_count sm) = - 2147483648 \<and>
               2147483647 + int p - int v = sint n)"
      by simp_all
    then obtain sm where sm: "sems s sem = Some sm"
      and cases: "(\<exists>t. e = Call_P t) \<and> in_interrupt s \<noteq> 0 \<and> 0 \<le> sint (sem_count sm) \<and>
               sint (sem_count sm) + int p - int v = sint n
             \<or> (\<exists>t. e = Call_V t) \<and> sint (sem_count sm) = - 2147483648 \<and>
               2147483647 + int p - int v = sint n"
      by blast
    from cases
    have "(\<exists>t. e = Call_P t) \<and> in_interrupt s \<noteq> 0 \<and> 0 \<le> sint (sem_count sm) \<and>
                  sint (sem_count sm) = sint n + int v - int p
                \<or> (\<exists>t. e = Call_V t) \<and> sint (sem_count sm) = - 2147483648 \<and>
                  sint n + int v - int p = 2147483647"
      by auto
    with sm show "\<exists>sm. sems s sem = Some sm \<and>
               ((\<exists>t. e = Call_P t) \<and> in_interrupt s \<noteq> 0 \<and> 0 \<le> sint (sem_count sm) \<and>
                  sint (sem_count sm) = sint n + int v - int p
                \<or> (\<exists>t. e = Call_V t) \<and> sint (sem_count sm) = - 2147483648 \<and>
                  sint n + int v - int p = 2147483647)"
      by blast
    from f show "f = Assertion_failed" .
  }
qed

theorem semaphore_conservation_witness:
  "sem_create ''sem'' 0 5 True boot =
     Done 5 (boot\<lparr>sems := [5 \<mapsto> \<lparr>sem_name = ''sem'', sem_count = 0\<rparr>]\<rparr>)
   \<and> run 5 [Call_P 1, Call_V 2, Resume 1] (0, 0)
         (boot\<lparr>sems := [5 \<mapsto> \<lparr>sem_name = ''sem'', sem_count = 0\<rparr>]\<rparr>) =
       Quiescent (1, 1) (boot\<lparr>sems := [5 \<mapsto> \<lparr>sem_name = ''sem'', sem_count = 0\<rparr>]\<rparr>)
   \<and> (\<exists>sm. sems (boot\<lparr>sems := [5 \<mapsto> \<lparr>sem_name = ''sem'', sem_count = 0\<rparr>]\<rparr>) 5 = Some sm
         \<and> 0 \<le> sint (sem_count sm)
         \<and> sint (sem_count sm) = sint (0 :: cint) + int 1 - int 1)
   \<and> run 5 [Call_V 2, Call_V 3] (0, 0)
         (boot\<lparr>sems := [5 \<mapsto> \<lparr>sem_name = ''sem'', sem_count = 2147483646\<rparr>]\<rparr>) =
       Panic (0, 1) (Call_V 3) Assertion_failed
         (boot\<lparr>curthread := 3, interrupts_masked := True,
            sems := [5 \<mapsto> \<lparr>sem_name = ''sem'', sem_count = 2147483648\<rparr>]\<rparr>)
   \<and> sint (2147483646 :: cint) + int 1 - int 0 = 2147483647"
proof -
  let ?s1 = "boot\<lparr>sems := [5 \<mapsto> \<lparr>sem_name = ''sem'', sem_count = 0\<rparr>]\<rparr>"
  let ?s2 = "boot\<lparr>sems := [5 \<mapsto> \<lparr>sem_name = ''sem'', sem_count = 2147483646\<rparr>]\<rparr>"
  let ?s3 = "boot\<lparr>curthread := 3, interrupts_masked := True,
               sems := [5 \<mapsto> \<lparr>sem_name = ''sem'', sem_count = 2147483648\<rparr>]\<rparr>"
  have create: "sem_create ''sem'' 0 5 True boot = Done 5 ?s1"
    by (simp add: sem_create_def boot_def NULL_def)
  have null: "(5 :: addr) \<noteq> NULL" by (simp add: NULL_def)
  have run: "run 5 [Call_P 1, Call_V 2, Resume 1] (0, 0) ?s1 = Quiescent (1, 1) ?s1"
    by (simp add: boot_def NULL_def P_def V_def P_loop_def enter_def idle_def splhigh_def
        splx_def thread_sleep_def thread_wakeup_def asleep_on_def switch_to_def asleep_in_P_def)
  from semaphore_conservation [OF create null, of "[Call_P 1, Call_V 2, Resume 1]"] run
  have quiet: "\<exists>sm. sems ?s1 5 = Some sm \<and> 0 \<le> sint (sem_count sm)
         \<and> sint (sem_count sm) = sint (0 :: cint) + int 1 - int 1"
    by blast
  have create2: "sem_create ''sem'' 2147483646 5 True boot = Done 5 ?s2"
    by (simp add: sem_create_def boot_def NULL_def)
  have panic: "run 5 [Call_V 2, Call_V 3] (0, 0) ?s2 = Panic (0, 1) (Call_V 3) Assertion_failed ?s3"
    by (simp add: boot_def NULL_def P_def V_def P_loop_def enter_def idle_def splhigh_def
        splx_def thread_sleep_def thread_wakeup_def asleep_on_def)
  from semaphore_conservation [OF create2 null, of "[Call_V 2, Call_V 3]"] panic
  have "\<exists>sm. sems ?s3 5 = Some sm \<and>
          ((\<exists>t. Call_V 3 = Call_P t) \<and> in_interrupt ?s3 \<noteq> 0 \<and> 0 \<le> sint (sem_count sm) \<and>
             sint (sem_count sm) = sint (2147483646 :: cint) + int 1 - int 0
           \<or> (\<exists>t. Call_V 3 = Call_V t) \<and> sint (sem_count sm) = - 2147483648 \<and>
             sint (2147483646 :: cint) + int 1 - int 0 = 2147483647)"
    by blast
  then have "sint (2147483646 :: cint) + int 1 - int 0 = 2147483647"
    by (auto simp: boot_def)
  with create run quiet panic show ?thesis by blast
qed

section \<open>Lock: \<^verbatim>\<open>lock_acquire\<close>\<close>

lemma lock_acquire_loop_eq:
  assumes "locks s lock = Some l"
  shows "lock_acquire_loop lock spl callers s =
     (if lock_occupied l = 1 \<and> lock_holder l \<noteq> curthread s
      then Blocked (thread_sleep lock (Acquire_frame lock spl # callers) s)
      else Done () (splx spl (s\<lparr>locks := (locks s)(lock \<mapsto>
              l\<lparr>lock_occupied := 1, lock_holder := curthread s\<rparr>)\<rparr>)))"
  using assms by (simp add: lock_acquire_loop_def)

text \<open>
  C7: for every call of \<^verbatim>\<open>lock_acquire\<close> on a live lock, the caller goes to sleep (on the
  lock, with interrupts masked, the lock untouched) exactly when the lock is held
  (\<^verbatim>\<open>lock_occupied == 1\<close>) and its holder is another thread; otherwise, so also when the
  caller already holds the lock, the call returns without sleeping, with the lock held and
  the caller its holder.  A thread woken in the loop makes the same test again: it sleeps
  on only while the lock is held by another thread, and on leaving the loop it sets the
  lock held with itself as holder.
\<close>

theorem lock_acquire_sleeps_only_on_foreign_holder:
  assumes "lock \<noteq> NULL" and "locks s lock = Some l"
  shows "lock_acquire lock s =
           (if lock_occupied l = 1 \<and> lock_holder l \<noteq> curthread s
            then Blocked (thread_sleep lock [Acquire_frame lock (interrupts_masked s)]
                   (s\<lparr>interrupts_masked := True\<rparr>))
            else Done () (s\<lparr>locks := (locks s)(lock \<mapsto>
                   l\<lparr>lock_occupied := 1, lock_holder := curthread s\<rparr>)\<rparr>))
         \<and> resume [Acquire_frame lock spl] s =
           (if lock_occupied l = 1 \<and> lock_holder l \<noteq> curthread s
            then Blocked (thread_sleep lock [Acquire_frame lock spl] s)
            else Done () (splx spl (s\<lparr>locks := (locks s)(lock \<mapsto>
                   l\<lparr>lock_occupied := 1, lock_holder := curthread s\<rparr>)\<rparr>)))"
proof -
  have "locks (s\<lparr>interrupts_masked := True\<rparr>) lock = Some l" using assms(2) by simp
  from lock_acquire_loop_eq [OF this, of "interrupts_masked s" "[]"] assms(1)
  have "lock_acquire lock s =
           (if lock_occupied l = 1 \<and> lock_holder l \<noteq> curthread s
            then Blocked (thread_sleep lock [Acquire_frame lock (interrupts_masked s)]
                   (s\<lparr>interrupts_masked := True\<rparr>))
            else Done () (s\<lparr>locks := (locks s)(lock \<mapsto>
                   l\<lparr>lock_occupied := 1, lock_holder := curthread s\<rparr>)\<rparr>))"
    by (simp add: lock_acquire_def lock_acquire_from_def splhigh_def splx_def)
  moreover from lock_acquire_loop_eq [OF assms(2), of spl "[]"]
  have "resume [Acquire_frame lock spl] s =
           (if lock_occupied l = 1 \<and> lock_holder l \<noteq> curthread s
            then Blocked (thread_sleep lock [Acquire_frame lock spl] s)
            else Done () (splx spl (s\<lparr>locks := (locks s)(lock \<mapsto>
                   l\<lparr>lock_occupied := 1, lock_holder := curthread s\<rparr>)\<rparr>)))"
    by simp
  ultimately show ?thesis by simp
qed

theorem lock_acquire_sleeps_only_on_foreign_holder_witness:
  "lock_acquire 7 held_by_1 = Done () held_by_1
   \<and> lock_acquire 7 (held_by_1\<lparr>curthread := 2\<rparr>) =
       Blocked (held_by_1\<lparr>curthread := 2, interrupts_masked := True,
                  sleepers := [(2, 7, [Acquire_frame 7 False])]\<rparr>)
   \<and> lock_acquire 7 (held_by_1\<lparr>curthread := 2,
         locks := [7 \<mapsto> \<lparr>lock_name = ''l'', lock_occupied = 0, lock_holder = NULL\<rparr>]\<rparr>) =
       Done () (held_by_1\<lparr>curthread := 2,
         locks := [7 \<mapsto> \<lparr>lock_name = ''l'', lock_occupied = 1, lock_holder = 2\<rparr>]\<rparr>)"
  using lock_acquire_sleeps_only_on_foreign_holder
      [of 7 held_by_1 "\<lparr>lock_name = ''l'', lock_occupied = 1, lock_holder = 1\<rparr>"]
    lock_acquire_sleeps_only_on_foreign_holder
      [of 7 "held_by_1\<lparr>curthread := 2\<rparr>"
          "\<lparr>lock_name = ''l'', lock_occupied = 1, lock_holder = 1\<rparr>"]
    lock_acquire_sleeps_only_on_foreign_holder
      [of 7 "held_by_1\<lparr>curthread := 2,
         locks := [7 \<mapsto> \<lparr>lock_name = ''l'', lock_occupied = 0, lock_holder = NULL\<rparr>]\<rparr>"
          "\<lparr>lock_name = ''l'', lock_occupied = 0, lock_holder = NULL\<rparr>"]
  by (simp add: held_by_1_def NULL_def thread_sleep_def)

section \<open>Lock: \<^verbatim>\<open>lock_release\<close> and \<^verbatim>\<open>lock_destroy\<close>\<close>

text \<open>
  \<^verbatim>\<open>lock_release\<close> asserts only that the handle is not null.  Whoever calls it, the lock
  is cleared and all threads sleeping on it are woken.
\<close>

lemma lock_release_any_caller:
  assumes "lock \<noteq> NULL" and "locks s lock = Some l"
  shows "lock_release lock s =
           Done () (thread_wakeup lock
             (s\<lparr>locks := (locks s)(lock \<mapsto> l\<lparr>lock_occupied := 0, lock_holder := NULL\<rparr>)\<rparr>))"
  using assms by (simp add: lock_release_def splhigh_def splx_def thread_wakeup_def)

text \<open>
  C1: the claim wants a fatal fault when the caller is not the owner.  Here thread 1 holds
  lock 7 and thread 2 calls \<^verbatim>\<open>lock_release\<close>: the call returns and the lock is free.
\<close>

theorem lock_release_by_non_owner:
  "lock_release 7 (held_by_1\<lparr>curthread := 2\<rparr>) =
     Done () (held_by_1\<lparr>curthread := 2,
       locks := [7 \<mapsto> \<lparr>lock_name = ''l'', lock_occupied = 0, lock_holder = NULL\<rparr>]\<rparr>)"
  by (simp add: lock_release_def held_by_1_def NULL_def splhigh_def splx_def thread_wakeup_def)

text \<open>
  \<^verbatim>\<open>lock_destroy\<close> asserts only that the handle is not null.  Held or not, the lock is
  freed.
\<close>

lemma lock_destroy_any_state:
  assumes "lock \<noteq> NULL" and "locks s lock = Some l"
  shows "lock_destroy lock s = Done () (s\<lparr>locks := (locks s)(lock := None)\<rparr>)"
  using assms by (simp add: lock_destroy_def)

text \<open>
  C3: the claim wants a fatal fault when a held lock is destroyed.  Here thread 1 holds
  lock 7 and \<^verbatim>\<open>lock_destroy\<close> returns, the lock freed.
\<close>

theorem lock_destroy_while_held:
  "lock_destroy 7 held_by_1 = Done () (held_by_1\<lparr>locks := Map.empty\<rparr>)"
  by (simp add: lock_destroy_def held_by_1_def NULL_def)

section \<open>Blocking operations in an interrupt handler\<close>

text \<open>
  \<^verbatim>\<open>P\<close> and \<^verbatim>\<open>cv_wait\<close> called in an interrupt handler stop at an assertion with the
  state untouched.
\<close>

lemma P_in_interrupt:
  "in_interrupt s \<noteq> 0 \<Longrightarrow> P sem s = Fault Assertion_failed s"
  by (simp add: P_def)

lemma cv_wait_in_interrupt:
  "in_interrupt s \<noteq> 0 \<Longrightarrow> \<exists>f. cv_wait cv lock s = Fault f s"
  by (simp add: cv_wait_def split: option.splits)

text \<open>
  C4: the claim wants the same of \<^verbatim>\<open>lock_acquire\<close>, whose assertion is commented out.
  Called with \<^verbatim>\<open>in_interrupt == 1\<close> on a free lock, it returns with the lock taken.
\<close>

theorem lock_acquire_in_interrupt:
  "lock_acquire 7 (boot\<lparr>in_interrupt := 1,
       locks := [7 \<mapsto> \<lparr>lock_name = ''l'', lock_occupied = 0, lock_holder = NULL\<rparr>]\<rparr>) =
     Done () (boot\<lparr>in_interrupt := 1,
       locks := [7 \<mapsto> \<lparr>lock_name = ''l'', lock_occupied = 1, lock_holder = 1\<rparr>]\<rparr>)"
  by (simp add: lock_acquire_def lock_acquire_from_def lock_acquire_loop_def boot_def NULL_def
      splhigh_def splx_def)

section \<open>Condition variable: \<^verbatim>\<open>cv_signal\<close> and \<^verbatim>\<open>cv_broadcast\<close>\<close>

lemma cv_signal_Done_count:
  assumes "cv_signal e cv lock s = Done u s'" and "cvs s cv = Some c"
  shows "\<exists>c'. cvs s' cv = Some c' \<and> cv_count c' = cv_count c - 1"
  using assms
  by (auto simp: cv_signal_def splhigh_def splx_def thread_wakeup_def Let_def
      split: if_splits option.splits prod.splits)

lemma assert_lock_do_i_hold_passes:
  assumes "lock \<noteq> NULL" and "locks s lock = Some l" and "lock_holder l = curthread s"
  shows "assert_lock_do_i_hold lock s = None"
  using assms by (simp add: assert_lock_do_i_hold_def lock_do_i_hold_def)

lemma thread_wakeup_cvs:
  "thread_wakeup t (s\<lparr>cvs := x\<rparr>) = (thread_wakeup t s)\<lparr>cvs := x\<rparr>"
  by (simp add: thread_wakeup_def)

lemma thread_wakeup_frame:
  "cvs (thread_wakeup t s) = cvs s \<and> locks (thread_wakeup t s) = locks s \<and>
   sems (thread_wakeup t s) = sems s \<and> curthread (thread_wakeup t s) = curthread s \<and>
   in_interrupt (thread_wakeup t s) = in_interrupt s \<and>
   interrupts_masked (thread_wakeup t s) = interrupts_masked s"
  by (simp add: thread_wakeup_def)

text \<open>
  \<^verbatim>\<open>cv_signal\<close> with a waiter in the queue: the count goes down by one, the head of the
  queue leaves it, and \<^verbatim>\<open>thread_wakeup\<close> is called on that thread.
\<close>

lemma cv_signal_nonempty:
  assumes "cv \<noteq> NULL" and "lock \<noteq> NULL"
    and "locks s lock = Some l" and "lock_holder l = curthread s"
    and "cvs s cv = Some c" and "thread_queue c = t # q"
  shows "cv_signal e cv lock s =
           Done () (thread_wakeup t
             (s\<lparr>cvs := (cvs s)(cv \<mapsto> c\<lparr>cv_count := cv_count c - 1, thread_queue := q\<rparr>)\<rparr>))"
  using assms assert_lock_do_i_hold_passes [OF assms(2,3,4)]
  by (simp add: cv_signal_def splhigh_def splx_def q_remhead_def thread_wakeup_def)

lemma fold_thread_wakeup_cvs:
  "fold thread_wakeup q (s\<lparr>cvs := x\<rparr>) = (fold thread_wakeup q s)\<lparr>cvs := x\<rparr>"
  by (induction q arbitrary: s) (simp_all add: thread_wakeup_cvs)

lemma fold_thread_wakeup_frame:
  "cvs (fold thread_wakeup q s) = cvs s \<and> locks (fold thread_wakeup q s) = locks s \<and>
   curthread (fold thread_wakeup q s) = curthread s"
  by (induction q arbitrary: s) (simp_all add: thread_wakeup_frame)

lemma cv_same:
  assumes "cvs s cv = Some c" and "cv_count c = n" and "thread_queue c = q"
  shows "s\<lparr>cvs := (cvs s)(cv \<mapsto> c\<lparr>cv_count := n, thread_queue := q\<rparr>)\<rparr> = s"
proof -
  have "c\<lparr>cv_count := n, thread_queue := q\<rparr> = c" using assms(2,3) by simp
  moreover have "(cvs s)(cv \<mapsto> c) = cvs s" using assms(1) by (rule map_upd_triv)
  ultimately show ?thesis by simp
qed

lemma cv_signal_times_wakes_queue:
  assumes "cv \<noteq> NULL" and "lock \<noteq> NULL"
    and "locks s lock = Some l" and "lock_holder l = curthread s"
    and "cvs s cv = Some c" and "thread_queue c = q"
  shows "cv_signal_times (length q) e cv lock s =
           Done () ((fold thread_wakeup q s)
             \<lparr>cvs := (cvs s)(cv \<mapsto> c\<lparr>cv_count := cv_count c - of_nat (length q),
                                        thread_queue := []\<rparr>)\<rparr>)"
  using assms(3-6)
proof (induction q arbitrary: s c)
  case Nil
  have "c\<lparr>cv_count := cv_count c - of_nat (length ([] :: addr list)), thread_queue := []\<rparr> = c"
    using Nil(4) by simp
  moreover have "(cvs s)(cv \<mapsto> c) = cvs s" using Nil(3) by (rule map_upd_triv)
  ultimately show ?case by simp
next
  case (Cons t q)
  let ?c = "c\<lparr>cv_count := cv_count c - 1, thread_queue := q\<rparr>"
  let ?d = "c\<lparr>cv_count := cv_count c - of_nat (length (t # q)), thread_queue := []\<rparr>"
  let ?s = "thread_wakeup t (s\<lparr>cvs := (cvs s)(cv \<mapsto> ?c)\<rparr>)"
  have sig: "cv_signal e cv lock s = Done () ?s"
    using assms(1,2) Cons.prems by (rule cv_signal_nonempty)
  have "locks ?s lock = Some l" and "lock_holder l = curthread ?s"
    and "cvs ?s cv = Some ?c" and "thread_queue ?c = q"
    using Cons.prems(1,2) by (simp_all add: thread_wakeup_frame)
  then have IH: "cv_signal_times (length q) e cv lock ?s =
          Done () ((fold thread_wakeup q ?s)
            \<lparr>cvs := (cvs ?s)(cv \<mapsto> ?c\<lparr>cv_count := cv_count ?c - of_nat (length q),
                                         thread_queue := []\<rparr>)\<rparr>)"
    by (rule Cons.IH)
  have d: "?c\<lparr>cv_count := cv_count ?c - of_nat (length q), thread_queue := []\<rparr> = ?d"
    by (simp add: diff_diff_eq)
  have upd: "(cvs ?s)(cv \<mapsto> ?d) = (cvs s)(cv \<mapsto> ?d)"
    by (simp add: thread_wakeup_frame)
  have "fold thread_wakeup q ?s =
          (fold thread_wakeup (t # q) s)\<lparr>cvs := (cvs s)(cv \<mapsto> ?c)\<rparr>"
    by (simp add: thread_wakeup_cvs fold_thread_wakeup_cvs)
  then have "(fold thread_wakeup q ?s)\<lparr>cvs := (cvs s)(cv \<mapsto> ?d)\<rparr> =
          (fold thread_wakeup (t # q) s)\<lparr>cvs := (cvs s)(cv \<mapsto> ?d)\<rparr>"
    by simp
  with IH d upd have "cv_signal_times (length q) e cv lock ?s =
          Done () ((fold thread_wakeup (t # q) s)\<lparr>cvs := (cvs s)(cv \<mapsto> ?d)\<rparr>)"
    by (simp only:)
  moreover have "cv_signal_times (length (t # q)) e cv lock s =
          cv_signal_times (length q) e cv lock ?s"
    by (simp add: sig)
  ultimately show ?case by (simp only:)
qed

lemma cv_broadcast_loop_is_signal_times:
  assumes "cv \<noteq> NULL" and "lock \<noteq> NULL"
    and "locks s lock = Some l" and "lock_holder l = curthread s"
    and "cvs s cv = Some c" and "thread_queue c = q"
    and "sint (cv_count c) = int (length q)"
  shows "cv_broadcast_loop e cv lock s = cv_signal_times (length q) e cv lock s"
  using assms(3-7)
proof (induction q arbitrary: s c)
  case Nil
  then show ?case by (subst cv_broadcast_loop.simps) simp
next
  case (Cons t q)
  let ?c = "c\<lparr>cv_count := cv_count c - 1, thread_queue := q\<rparr>"
  let ?s = "thread_wakeup t (s\<lparr>cvs := (cvs s)(cv \<mapsto> ?c)\<rparr>)"
  have sig: "cv_signal e cv lock s = Done () ?s"
    using assms(1,2) Cons.prems(1-4) by (rule cv_signal_nonempty)
  have pos: "0 < sint (cv_count c)" using Cons.prems(5) by simp
  then have len: "sint (cv_count ?c) = int (length q)"
    using Cons.prems(5) by (simp add: sint_pred)
  have "locks ?s lock = Some l" and "lock_holder l = curthread ?s"
    and "cvs ?s cv = Some ?c" and "thread_queue ?c = q"
    using Cons.prems(1,2) by (simp_all add: thread_wakeup_frame)
  then have "cv_broadcast_loop e cv lock ?s = cv_signal_times (length q) e cv lock ?s"
    using len by (rule Cons.IH)
  with sig pos Cons.prems(3) show ?case
    by (subst cv_broadcast_loop.simps) simp
qed

text \<open>
  Whenever \<^verbatim>\<open>cv_broadcast\<close> returns, its two closing assertions have passed: the count
  is 0 and the queue is empty.
\<close>

lemma cv_broadcast_Done:
  assumes "cv_broadcast e cv lock s = Done u s'"
  shows "\<exists>c. cvs s' cv = Some c \<and> cv_count c = 0 \<and> thread_queue c = []"
  using assms
  by (auto simp: cv_broadcast_def q_empty_def
      split: if_splits option.splits outcome.splits)

text \<open>
  The loop of \<^verbatim>\<open>cv_broadcast\<close> on a live condition variable is \<^verbatim>\<open>cv_signal\<close> called
  some number of times in a row.
\<close>

lemma cv_broadcast_loop_repeats_signal:
  "cvs s cv \<noteq> None \<Longrightarrow> \<exists>n. cv_broadcast_loop e cv lock s = cv_signal_times n e cv lock s"
proof (induction e cv lock s rule: cv_broadcast_loop.induct)
  case (1 e cv lock s)
  from "1.prems" obtain c where c: "cvs s cv = Some c" by auto
  show ?case
  proof (cases "0 < sint (cv_count c)")
    case False
    with c have "cv_broadcast_loop e cv lock s = cv_signal_times 0 e cv lock s"
      by (subst cv_broadcast_loop.simps) simp
    then show ?thesis ..
  next
    case True
    show ?thesis
    proof (cases "cv_signal e cv lock s")
      case (Done u s')
      from cv_signal_Done_count [OF Done c] have "cvs s' cv \<noteq> None" by auto
      from "1.IH" [OF c True Done this] obtain n
        where "cv_broadcast_loop e cv lock s' = cv_signal_times n e cv lock s'" ..
      with c True Done
      have "cv_broadcast_loop e cv lock s = cv_signal_times (Suc n) e cv lock s"
        by (subst cv_broadcast_loop.simps) simp
      then show ?thesis ..
    next
      case (Blocked s')
      with c True
      have "cv_broadcast_loop e cv lock s = cv_signal_times (Suc 0) e cv lock s"
        by (subst cv_broadcast_loop.simps) simp
      then show ?thesis ..
    next
      case (Fault f s')
      with c True
      have "cv_broadcast_loop e cv lock s = cv_signal_times (Suc 0) e cv lock s"
        by (subst cv_broadcast_loop.simps) simp
      then show ?thesis ..
    qed
  qed
qed

text \<open>
  C9: for every call of \<^verbatim>\<open>cv_broadcast\<close>, the loop is \<^verbatim>\<open>cv_signal\<close> repeated, and
  whenever the call returns the count is 0 and the waiter queue is empty.  When the caller
  holds the paired lock and the count is the length of the waiter queue (the data model's
  invariant), the call does return: it is \<^verbatim>\<open>cv_signal\<close> once per waiter, and the waiters
  have been woken one at a time, oldest first (\<open>fold\<close> goes through the queue from its
  head).
\<close>

theorem cv_broadcast_signals_until_empty:
  "(cvs s cv \<noteq> None \<longrightarrow>
      (\<exists>n. cv_broadcast_loop e cv lock s = cv_signal_times n e cv lock s))
   \<and> (\<forall>u s'. cv_broadcast e cv lock s = Done u s' \<longrightarrow>
         (\<exists>c'. cvs s' cv = Some c' \<and> cv_count c' = 0 \<and> thread_queue c' = []))
   \<and> (cv \<noteq> NULL \<and> lock \<noteq> NULL \<and> locks s lock = Some l \<and> lock_holder l = curthread s \<and>
       cvs s cv = Some c \<and> sint (cv_count c) = int (length (thread_queue c)) \<longrightarrow>
         cv_broadcast e cv lock s = cv_signal_times (length (thread_queue c)) e cv lock s
         \<and> cv_broadcast e cv lock s =
             Done () ((fold thread_wakeup (thread_queue c) s)
               \<lparr>cvs := (cvs s)(cv \<mapsto> c\<lparr>cv_count := 0, thread_queue := []\<rparr>)\<rparr>))"
proof (intro conjI impI allI)
  assume "cvs s cv \<noteq> None"
  then show "\<exists>n. cv_broadcast_loop e cv lock s = cv_signal_times n e cv lock s"
    by (rule cv_broadcast_loop_repeats_signal)
next
  fix u s'
  assume "cv_broadcast e cv lock s = Done u s'"
  then show "\<exists>c'. cvs s' cv = Some c' \<and> cv_count c' = 0 \<and> thread_queue c' = []"
    by (rule cv_broadcast_Done)
next
  assume a: "cv \<noteq> NULL \<and> lock \<noteq> NULL \<and> locks s lock = Some l \<and> lock_holder l = curthread s \<and>
       cvs s cv = Some c \<and> sint (cv_count c) = int (length (thread_queue c))"
  let ?q = "thread_queue c"
  let ?s = "(fold thread_wakeup ?q s)
              \<lparr>cvs := (cvs s)(cv \<mapsto> c\<lparr>cv_count := 0, thread_queue := []\<rparr>)\<rparr>"
  from a have cv: "cv \<noteq> NULL" and lock: "lock \<noteq> NULL" and l: "locks s lock = Some l"
    and h: "lock_holder l = curthread s" and c: "cvs s cv = Some c"
    and n: "sint (cv_count c) = int (length ?q)" by simp_all
  have zero: "cv_count c - of_nat (length ?q) = 0"
    using count_is_length [OF n] by simp
  have times: "cv_signal_times (length ?q) e cv lock s = Done () ?s"
    using cv_signal_times_wakes_queue [OF cv lock l h c refl, of e] zero by simp
  have loop: "cv_broadcast_loop e cv lock s = cv_signal_times (length ?q) e cv lock s"
    using cv lock l h c refl n by (rule cv_broadcast_loop_is_signal_times)
  have fin: "cv_broadcast e cv lock s = Done () ?s"
    using cv lock assert_lock_do_i_hold_passes [OF lock l h] loop times
    by (simp add: cv_broadcast_def q_empty_def)
  from fin times show "cv_broadcast e cv lock s = cv_signal_times (length ?q) e cv lock s" by simp
  from fin show "cv_broadcast e cv lock s = Done () ?s" .
qed

theorem cv_broadcast_signals_until_empty_witness:
  "cv_broadcast None 9 7 two_waiters =
     Done () (two_waiters
       \<lparr>cvs := [9 \<mapsto> \<lparr>cv_name = ''c'', cv_count = 0, thread_queue = []\<rparr>],
         sleepers := [], runnable := [(2, [Wait_frame 9 7 False]), (3, [Wait_frame 9 7 False])]\<rparr>)
   \<and> (\<exists>c'. cvs (two_waiters
       \<lparr>cvs := [9 \<mapsto> \<lparr>cv_name = ''c'', cv_count = 0, thread_queue = []\<rparr>],
         sleepers := [], runnable := [(2, [Wait_frame 9 7 False]), (3, [Wait_frame 9 7 False])]\<rparr>) 9
         = Some c' \<and> cv_count c' = 0 \<and> thread_queue c' = [])"
proof -
  let ?l = "\<lparr>lock_name = ''l'', lock_occupied = 1, lock_holder = 1\<rparr>"
  let ?c = "\<lparr>cv_name = ''c'', cv_count = 2, thread_queue = [2, 3]\<rparr>"
  note inst = cv_broadcast_signals_until_empty [of two_waiters 9 None 7 ?l ?c]
  have pre: "(9 :: addr) \<noteq> NULL \<and> (7 :: addr) \<noteq> NULL \<and> locks two_waiters 7 = Some ?l \<and>
      lock_holder ?l = curthread two_waiters \<and> cvs two_waiters 9 = Some ?c \<and>
      sint (cv_count ?c) = int (length (thread_queue ?c))"
    by (simp add: two_waiters_def NULL_def)
  from inst pre have fin: "cv_broadcast None 9 7 two_waiters =
      Done () ((fold thread_wakeup (thread_queue ?c) two_waiters)
        \<lparr>cvs := (cvs two_waiters)(9 \<mapsto> ?c\<lparr>cv_count := 0, thread_queue := []\<rparr>)\<rparr>)"
    by blast
  then have eq: "cv_broadcast None 9 7 two_waiters =
     Done () (two_waiters
       \<lparr>cvs := [9 \<mapsto> \<lparr>cv_name = ''c'', cv_count = 0, thread_queue = []\<rparr>],
         sleepers := [], runnable := [(2, [Wait_frame 9 7 False]), (3, [Wait_frame 9 7 False])]\<rparr>)"
    by (simp add: two_waiters_def thread_wakeup_def asleep_on_def)
  from inst eq show ?thesis by blast
qed

text \<open>
  C10: \<^verbatim>\<open>cv_broadcast\<close>, called by the holder of the paired lock when the count is 0
  and the queue is empty, returns with the whole kernel state as it was: the loop runs no
  iteration (it is zero calls of \<^verbatim>\<open>cv_signal\<close>), nobody is woken, and the count, the
  queue and the lock are unchanged.  \<^verbatim>\<open>cv_signal\<close> in the same state is no such no-op.
\<close>

theorem cv_broadcast_without_waiters_is_noop:
  assumes "cv \<noteq> NULL" and "lock \<noteq> NULL"
    and "locks s lock = Some l" and "lock_holder l = curthread s"
    and "cvs s cv = Some c" and "cv_count c = 0" and "thread_queue c = []"
  shows "cv_broadcast e cv lock s = Done () s
         \<and> cv_broadcast_loop e cv lock s = cv_signal_times 0 e cv lock s
         \<and> cv_signal e cv lock s \<noteq> Done () s"
proof -
  have loop: "cv_broadcast_loop e cv lock s = Done () s"
    using assms(5,6) by (subst cv_broadcast_loop.simps) simp
  have "cv_broadcast e cv lock s = Done () s"
    using assms(1,2,5,6,7) assert_lock_do_i_hold_passes [OF assms(2,3,4)] loop
    by (simp add: cv_broadcast_def q_empty_def)
  moreover have "cv_signal e cv lock s \<noteq> Done () s"
  proof
    assume "cv_signal e cv lock s = Done () s"
    from cv_signal_Done_count [OF this assms(5)] assms(5,6)
    have "(0 :: cint) = 0 - 1" by simp
    then show False by simp
  qed
  ultimately show ?thesis using loop by simp
qed

theorem cv_broadcast_without_waiters_is_noop_witness:
  "cv_broadcast None 9 7 no_waiters = Done () no_waiters
   \<and> cv_signal None 9 7 no_waiters \<noteq> Done () no_waiters"
  using cv_broadcast_without_waiters_is_noop
      [of 9 7 no_waiters "\<lparr>lock_name = ''l'', lock_occupied = 1, lock_holder = 1\<rparr>"
          "\<lparr>cv_name = ''c'', cv_count = 0, thread_queue = []\<rparr>" None]
  by (simp add: no_waiters_def NULL_def)

text \<open>
  C2: the claim wants \<^verbatim>\<open>cv_signal\<close> to be a no-op when the count is 0.  The code has
  no such test: it takes one from the count (now \<open>-1\<close>) and pops the empty queue.  If
  popping an empty queue is a fatal fault the kernel panics; if it returns something the
  call returns with the count at \<open>-1\<close>.
\<close>

theorem cv_signal_without_waiters:
  "cv_signal None 9 7 no_waiters =
     Fault Assertion_failed (no_waiters\<lparr>interrupts_masked := True,
       cvs := [9 \<mapsto> \<lparr>cv_name = ''c'', cv_count = - 1, thread_queue = []\<rparr>]\<rparr>)
   \<and> cv_signal (Some (0, [])) 9 7 no_waiters =
     Done () (no_waiters
       \<lparr>cvs := [9 \<mapsto> \<lparr>cv_name = ''c'', cv_count = - 1, thread_queue = []\<rparr>]\<rparr>)"
  by (simp add: cv_signal_def no_waiters_def NULL_def assert_lock_do_i_hold_def
      lock_do_i_hold_def splhigh_def splx_def q_remhead_def thread_wakeup_def asleep_on_def)

section \<open>Null handles\<close>

text \<open>Every operation but one asserts that its handles are not null.\<close>

lemma null_handle_asserts:
  "sem_destroy NULL s = Fault Assertion_failed s"
  "P NULL s = Fault Assertion_failed s"
  "V NULL s = Fault Assertion_failed s"
  "lock_destroy NULL s = Fault Assertion_failed s"
  "lock_acquire NULL s = Fault Assertion_failed s"
  "lock_release NULL s = Fault Assertion_failed s"
  "cv_destroy NULL s = Fault Assertion_failed s"
  "cv_wait NULL lock s = Fault Assertion_failed s"
  "cv_wait cv NULL s = Fault Assertion_failed s"
  "cv_signal e NULL lock s = Fault Assertion_failed s"
  "cv_signal e cv NULL s = Fault Assertion_failed s"
  "cv_broadcast e NULL lock s = Fault Assertion_failed s"
  "cv_broadcast e cv NULL s = Fault Assertion_failed s"
  by (simp_all add: sem_destroy_def P_def V_def lock_destroy_def lock_acquire_def
      lock_acquire_from_def lock_release_def cv_destroy_def cv_wait_def cv_signal_def
      cv_broadcast_def)

text \<open>
  C5: the claim wants an assertion on a null handle from every operation.
  \<^verbatim>\<open>lock_do_i_hold\<close> has none: it reads \<^verbatim>\<open>lock->lock_holder\<close> through the null pointer.
\<close>

theorem lock_do_i_hold_null:
  "lock_do_i_hold NULL boot = Fault Bad_pointer boot"
  by (simp add: lock_do_i_hold_def)

end
